theory Spec2Isabelle
  imports Complex_Main "HOL-Library.List_Lexorder" "HOL-Library.Char_ord" "HOL-Library.AList"
    "HOL-Library.Multiset"
begin

section \<open>Bank statement import: the CSV tokenizer\<close>

text \<open>
  The statement importer reads a CSV export, tokenizes it, normalizes dates and amounts,
  collapses the rows of one calendar day and, for transaction statements, rebuilds a
  running balance.  Strings of the source are modelled as \<^typ>\<open>string\<close>: one \<^typ>\<open>char\<close> per
  code unit of the source string (code units below 256).
\<close>

subsection \<open>Characters and trimming\<close>

definition dquote :: char where
  "dquote = CHR 0x22"

definition comma :: char where
  "comma = CHR 0x2C"

definition newline :: char where
  "newline = CHR 0x0A"

definition cr :: char where
  "cr = CHR 0x0D"

text \<open>
  The white space removed by \<open>String.prototype.trim\<close> and matched by \<open>\s\<close>: tab, line
  feed, vertical tab, form feed, carriage return, space and no-break space (the others lie
  above code unit 255).
\<close>

definition isSpace :: "char \<Rightarrow> bool" where
  "isSpace c = (c \<in> set [CHR 0x09, CHR 0x0A, CHR 0x0B, CHR 0x0C, CHR 0x0D, CHR 0x20, CHR 0xA0])"

definition trim :: "string \<Rightarrow> string" where
  "trim s = rev (dropWhile isSpace (rev (dropWhile isSpace s)))"

subsection \<open>parseCsv\<close>

text \<open>The four local variables of \<open>parseCsv\<close>.\<close>

record scanner =
  rows :: "string list list"
  currentRow :: "string list"
  currentField :: string
  inQuotes :: bool

definition initial :: scanner where
  "initial = \<lparr>rows = [], currentRow = [], currentField = [], inQuotes = False\<rparr>"

text \<open>
  The \<open>for\<close> loop over the text, on the characters from index \<open>i\<close> on.  Inside quotes a
  quote followed by a quote appends one quote and skips both (\<open>i += 1\<close> and the loop's
  own increment); a quote followed by anything else, or by the end of the text
  (\<open>text[i + 1]\<close> is \<open>undefined\<close>), closes the quoted region.
\<close>

fun scan :: "scanner \<Rightarrow> string \<Rightarrow> scanner" where
  "scan st [] = st"
| "scan st (c # cs) =
    (if inQuotes st then
       (if c = dquote then
          (case cs of
             [] \<Rightarrow> scan (st\<lparr>inQuotes := False\<rparr>) cs
           | d # ds \<Rightarrow>
               if d = dquote then scan (st\<lparr>currentField := currentField st @ [dquote]\<rparr>) ds
               else scan (st\<lparr>inQuotes := False\<rparr>) cs)
        else scan (st\<lparr>currentField := currentField st @ [c]\<rparr>) cs)
     else if c = dquote then scan (st\<lparr>inQuotes := True\<rparr>) cs
     else if c = comma then
       scan (st\<lparr>currentRow := currentRow st @ [currentField st], currentField := []\<rparr>) cs
     else if c = newline then
       scan (st\<lparr>rows := rows st @ [currentRow st @ [currentField st]],
                 currentRow := [], currentField := []\<rparr>) cs
     else if c = cr then scan st cs
     else scan (st\<lparr>currentField := currentField st @ [c]\<rparr>) cs)"

text \<open>The flush after the loop.\<close>

definition flush :: "scanner \<Rightarrow> string list list" where
  "flush st =
     (if length (currentField st) > 0 \<or> length (currentRow st) > 0
      then rows st @ [currentRow st @ [currentField st]]
      else rows st)"

definition notBlank :: "string list \<Rightarrow> bool" where
  "notBlank row = list_ex (\<lambda>cell. trim cell \<noteq> []) row"

definition parseCsv :: "string \<Rightarrow> string list list" where
  "parseCsv text = filter notBlank (flush (scan initial text))"

text \<open>
  The quoting convention of CSV writers, against which the tokenizer is checked: the field
  is wrapped in double quotes and every quote inside it is doubled.
\<close>

definition quoteField :: "string \<Rightarrow> string" where
  "quoteField s =
     dquote # concat (map (\<lambda>c. if c = dquote then [dquote, dquote] else [c]) s) @ [dquote]"

text \<open>
  \<open>quotedCr q s\<close>: some carriage return of \<open>s\<close> lies inside a quoted region, where \<open>q\<close>
  tells whether the scanner is inside quotes at the start of \<open>s\<close>.  The quoted regions are
  those of \<open>scan\<close>: the same transitions of \<open>inQuotes\<close>.
\<close>

fun quotedCr :: "bool \<Rightarrow> string \<Rightarrow> bool" where
  "quotedCr q [] = False"
| "quotedCr q (c # cs) =
    (if q then
       (if c = dquote then
          (case cs of
             [] \<Rightarrow> False
           | d # ds \<Rightarrow> if d = dquote then quotedCr True ds else quotedCr False cs)
        else c = cr \<or> quotedCr True cs)
     else if c = dquote then quotedCr True cs
     else quotedCr False cs)"

text \<open>No carriage return in any field the scanner holds.\<close>

definition crFree :: "scanner \<Rightarrow> bool" where
  "crFree st =
     ((\<forall>row \<in> set (rows st). \<forall>field \<in> set row. cr \<notin> set field) \<and>
      (\<forall>field \<in> set (currentRow st). cr \<notin> set field) \<and>
      cr \<notin> set (currentField st))"

section \<open>Numbers and the amount normalizer\<close>

text \<open>
  A value of the source's type \<open>number\<close>: \<open>Finite x\<close> is the double of value \<open>x\<close>; the
  two infinities and \<open>NaN\<close> are kept, since \<open>parseFloat\<close> and \<open>+\<close> produce them.  The sign
  of zero is not modelled.
\<close>

datatype number = Finite real | PosInfinity | NegInfinity | NaN

subsection \<open>The language runtime\<close>

text \<open>
  What the model leaves to the language runtime:
  \<^item> \<open>roundToDouble\<close>: the finite double nearest to a real, or nothing when the real lies
    beyond the range of the doubles;
  \<^item> \<open>stringToNumber\<close>: the conversion of a string to a number by \<open>Number\<close>, for strings
    other than short digit strings (signs, fractions, exponents, hexadecimal literals and
    so on);
  \<^item> \<open>parseDateText\<close>: the parsing of free-form date text by \<open>new Date(text)\<close>, which the
    language standard leaves to the implementation; it gives the local year, month index
    and day of the parsed date, or nothing when the date is invalid;
  \<^item> \<open>collate\<close>: the comparison of two strings by \<open>localeCompare\<close>, for strings with
    characters other than those of ISO dates.
\<close>

record runtime =
  roundToDouble :: "real \<Rightarrow> real option"
  stringToNumber :: "string \<Rightarrow> number"
  parseDateText :: "string \<Rightarrow> (int \<times> int \<times> int) option"
  collate :: "string \<Rightarrow> string \<Rightarrow> int"

text \<open>
  A multiple of 1/4 of absolute value at most \<open>2 ^ 51\<close> is a double: its fourfold is an
  integer of at most 53 bits.
\<close>

definition exactDouble :: "real \<Rightarrow> bool" where
  "exactDouble x = (\<bar>x\<bar> \<le> 2251799813685248 \<and> real_of_int \<lfloor>4 * x\<rfloor> = 4 * x)"

text \<open>
  The number that a real value is rounded to: the value itself when it is known to be a
  double, otherwise the nearest double of the runtime, and the infinity of its sign when
  it lies beyond the doubles.  The result is never \<open>NaN\<close>.
\<close>

definition toDouble :: "runtime \<Rightarrow> real \<Rightarrow> number" where
  "toDouble rt x =
     (if exactDouble x then Finite x
      else (case roundToDouble rt x of
              Some r \<Rightarrow> Finite r
            | None \<Rightarrow> if x < 0 then NegInfinity else PosInfinity))"

subsection \<open>Arithmetic\<close>

text \<open>
  The operator \<open>+\<close> on numbers.  The sum of two finite doubles is taken without rounding;
  the statements about sums fix the order of the additions and use no law of addition.
\<close>

fun add :: "number \<Rightarrow> number \<Rightarrow> number" where
  "add (Finite a) (Finite b) = Finite (a + b)"
| "add NaN y = NaN"
| "add x NaN = NaN"
| "add PosInfinity NegInfinity = NaN"
| "add NegInfinity PosInfinity = NaN"
| "add PosInfinity y = PosInfinity"
| "add x PosInfinity = PosInfinity"
| "add NegInfinity y = NegInfinity"
| "add x NegInfinity = NegInfinity"

text \<open>Unary minus and \<open>Math.abs\<close>.\<close>

fun neg :: "number \<Rightarrow> number" where
  "neg (Finite a) = Finite (- a)"
| "neg PosInfinity = NegInfinity"
| "neg NegInfinity = PosInfinity"
| "neg NaN = NaN"

fun absNumber :: "number \<Rightarrow> number" where
  "absNumber (Finite a) = Finite \<bar>a\<bar>"
| "absNumber PosInfinity = PosInfinity"
| "absNumber NegInfinity = PosInfinity"
| "absNumber NaN = NaN"

subsection \<open>Decimal digits\<close>

definition isDigit :: "char \<Rightarrow> bool" where
  "isDigit c = (c \<in> set ''0123456789'')"

definition digitValue :: "char \<Rightarrow> nat" where
  "digitValue c = of_char c - 48"

text \<open>The value of a string of decimal digits, most significant digit first.\<close>

definition decimalValue :: "string \<Rightarrow> nat" where
  "decimalValue ds = foldl (\<lambda>n c. 10 * n + digitValue c) 0 ds"

subsection \<open>parseFloat\<close>

text \<open>
  \<open>Number.parseFloat\<close> of the language's library, after ECMA-262: leading white space is
  dropped, and the longest prefix that is a \<open>StrDecimalLiteral\<close> is evaluated: its decimal
  value, rounded to a double; without such a prefix the result is \<open>NaN\<close>.  A \<open>StrDecimalLiteral\<close> is an optional sign followed by
  \<open>Infinity\<close>, or by digits with an optional fraction, or by a fraction alone, each with
  an optional exponent.
\<close>

text \<open>
  The exponent part at the start of the rest, if there is a well-formed one: \<open>e\<close> or
  \<open>E\<close>, an optional sign, and at least one digit.  Otherwise the exponent is 0 and the
  literal ends before the rest.
\<close>

definition exponentPart :: "string \<Rightarrow> int" where
  "exponentPart r =
     (case r of
        [] \<Rightarrow> 0
      | e # r1 \<Rightarrow>
          if e = CHR ''e'' \<or> e = CHR ''E'' then
            (case r1 of
               [] \<Rightarrow> 0
             | sg # r2 \<Rightarrow>
                 if sg = CHR ''-'' then
                   (if takeWhile isDigit r2 = [] then 0
                    else - int (decimalValue (takeWhile isDigit r2)))
                 else if sg = CHR ''+'' then int (decimalValue (takeWhile isDigit r2))
                 else int (decimalValue (takeWhile isDigit r1)))
          else 0)"

definition scale :: "real \<Rightarrow> int \<Rightarrow> real" where
  "scale m e = (if 0 \<le> e then m * 10 ^ nat e else m / 10 ^ nat (- e))"

definition startsWith :: "string \<Rightarrow> string \<Rightarrow> bool" where
  "startsWith s p = (take (length p) s = p)"

definition endsWith :: "string \<Rightarrow> string \<Rightarrow> bool" where
  "endsWith s p = (length p \<le> length s \<and> drop (length s - length p) s = p)"

definition unsignedLiteral :: "runtime \<Rightarrow> string \<Rightarrow> number" where
  "unsignedLiteral rt s =
     (if startsWith s ''Infinity'' then PosInfinity
      else
        let ip = takeWhile isDigit s; r1 = dropWhile isDigit s
        in (case r1 of
              [] \<Rightarrow> if ip = [] then NaN else toDouble rt (real (decimalValue ip))
            | c # r2 \<Rightarrow>
                if c = CHR ''.'' then
                  (let fp = takeWhile isDigit r2; r3 = dropWhile isDigit r2
                   in if ip = [] \<and> fp = [] then NaN
                      else toDouble rt (scale (real (decimalValue ip) +
                             real (decimalValue fp) / 10 ^ length fp) (exponentPart r3)))
                else if ip = [] then NaN
                else toDouble rt (scale (real (decimalValue ip)) (exponentPart r1))))"

definition parseFloat :: "runtime \<Rightarrow> string \<Rightarrow> number" where
  "parseFloat rt s =
     (case dropWhile isSpace s of
        [] \<Rightarrow> NaN
      | c # r \<Rightarrow>
          if c = CHR ''+'' then unsignedLiteral rt r
          else if c = CHR ''-'' then neg (unsignedLiteral rt r)
          else unsignedLiteral rt (c # r))"

subsection \<open>parseAmount\<close>

text \<open>The characters removed by \<open>replace(/[$,\s]/g, '')\<close>.\<close>

definition isStripped :: "char \<Rightarrow> bool" where
  "isStripped c = (c = CHR ''$'' \<or> c = CHR '','' \<or> isSpace c)"

text \<open>
  \<open>slice(1, -1)\<close> is only taken of a string that starts with an opening and ends with a
  closing parenthesis, which has at least two characters.
\<close>

definition parseAmount :: "runtime \<Rightarrow> string \<Rightarrow> number option" where
  "parseAmount rt raw =
     (let cleaned = trim raw in
      if cleaned = [] then None
      else
        let parens = (startsWith cleaned ''('' \<and> endsWith cleaned '')'');
            cleaned1 = (if parens then butlast (tl cleaned) else cleaned);
            cleaned2 = filter (\<lambda>c. \<not> isStripped c) cleaned1;
            minus = startsWith cleaned2 ''-'';
            cleaned3 = (if minus then tl cleaned2 else cleaned2);
            isNegative = (parens \<or> minus);
            v = parseFloat rt cleaned3
        in if v = NaN then None
           else Some (if isNegative then neg (absNumber v) else v))"

text \<open>
  Two intermediate values of \<open>parseAmount\<close>, named for the statements about it: whether a
  negative marker was found, and the text handed to \<open>parseFloat\<close>.
\<close>

definition negativeMarker :: "string \<Rightarrow> bool" where
  "negativeMarker raw =
     (let cleaned = trim raw;
          parens = (startsWith cleaned ''('' \<and> endsWith cleaned '')'');
          cleaned1 = (if parens then butlast (tl cleaned) else cleaned);
          cleaned2 = filter (\<lambda>c. \<not> isStripped c) cleaned1
      in parens \<or> startsWith cleaned2 ''-'')"

definition numeralText :: "string \<Rightarrow> string" where
  "numeralText raw =
     (let cleaned = trim raw;
          parens = (startsWith cleaned ''('' \<and> endsWith cleaned '')'');
          cleaned1 = (if parens then butlast (tl cleaned) else cleaned);
          cleaned2 = filter (\<lambda>c. \<not> isStripped c) cleaned1
      in if startsWith cleaned2 ''-'' then tl cleaned2 else cleaned2)"


section \<open>Rows, deduplication and import entries\<close>

datatype StatementType = Balance | Transactions

record NormalizedRow =
  rowIndex :: nat
  rawDate :: string
  rawValue :: string
  dateIso :: "string option"
  amount :: "number option"

text \<open>
  The filter of \<open>validRows\<close>: \<open>row.dateIso && row.amount !== null\<close>.  A string is truthy when
  it is not empty.
\<close>

definition isValid :: "NormalizedRow \<Rightarrow> bool" where
  "isValid row =
     ((case dateIso row of None \<Rightarrow> False | Some d \<Rightarrow> length d > 0) \<and> amount row \<noteq> None)"

definition validRows :: "NormalizedRow list \<Rightarrow> NormalizedRow list" where
  "validRows normalizedRows = filter isValid normalizedRows"

subsection \<open>The library's Map, localeCompare and sort\<close>

text \<open>
  A \<open>Map\<close> keeps its entries in the order in which their keys were first set; setting a
  key that is present replaces its value in place.  It is modelled by an association list
  with distinct keys.
\<close>

type_synonym ('k, 'v) jsmap = "('k \<times> 'v) list"

definition mapHas :: "('k, 'v) jsmap \<Rightarrow> 'k \<Rightarrow> bool" where
  "mapHas m k = (k \<in> set (map fst m))"

definition mapGet :: "('k, 'v) jsmap \<Rightarrow> 'k \<Rightarrow> 'v option" where
  "mapGet m k = map_of m k"

definition mapSet :: "('k, 'v) jsmap \<Rightarrow> 'k \<Rightarrow> 'v \<Rightarrow> ('k, 'v) jsmap" where
  "mapSet m k v = AList.update k v m"

definition mapValues :: "('k, 'v) jsmap \<Rightarrow> 'v list" where
  "mapValues m = map snd m"

text \<open>
  \<open>localeCompare\<close> compares two strings by the collation of the runtime's locale, not by
  code units.  The strings \<open>toIsoDate\<close> returns consist of digits, hyphens and, for a year
  beyond 9999, a plus sign (\<open>+100000-01-01\<close>; a year before 0 gives \<open>-001000-01-01\<close>).  On
  such strings the collation compares character by character, with the hyphen before the
  plus sign and both before the digits, which follow in numeric order: by code units the
  plus sign would come before the hyphen.  Other strings are left to the runtime.
\<close>

definition isDateChar :: "char \<Rightarrow> bool" where
  "isDateChar c = (isDigit c \<or> c = CHR ''-'' \<or> c = CHR ''+'')"

definition collationWeight :: "char \<Rightarrow> nat" where
  "collationWeight c =
     (if c = CHR ''-'' then 0 else if c = CHR ''+'' then 1 else 2 + digitValue c)"

fun compareWeights :: "nat list \<Rightarrow> nat list \<Rightarrow> int" where
  "compareWeights [] [] = 0"
| "compareWeights [] (y # ys) = - 1"
| "compareWeights (x # xs) [] = 1"
| "compareWeights (x # xs) (y # ys) =
     (if x < y then - 1 else if y < x then 1 else compareWeights xs ys)"

definition localeCompare :: "runtime \<Rightarrow> string \<Rightarrow> string \<Rightarrow> int" where
  "localeCompare rt a b =
     (if list_all isDateChar a \<and> list_all isDateChar b
      then compareWeights (map collationWeight a) (map collationWeight b)
      else collate rt a b)"

text \<open>
  \<open>Array.prototype.sort\<close> with a comparator is a stable sort; it is modelled by the stable
  insertion sort.  Whatever the comparator, the result is a rearrangement of the array.
\<close>

fun insertBy :: "('a \<Rightarrow> 'a \<Rightarrow> int) \<Rightarrow> 'a \<Rightarrow> 'a list \<Rightarrow> 'a list" where
  "insertBy cmp x [] = [x]"
| "insertBy cmp x (y # ys) = (if cmp x y \<le> 0 then x # y # ys else y # insertBy cmp x ys)"

definition sortBy :: "('a \<Rightarrow> 'a \<Rightarrow> int) \<Rightarrow> 'a list \<Rightarrow> 'a list" where
  "sortBy cmp xs = foldr (insertBy cmp) xs []"

subsection \<open>dedupedRows\<close>

text \<open>
  The rows \<open>dedupedRows\<close> returns are whole normalized rows in balance mode and pairs of a
  date and an amount in transactions mode; their readers use \<open>dateIso\<close> and \<open>amount\<close> only.
\<close>

datatype DedupedRow = BalanceRow NormalizedRow | TransactionRow string number

fun rowDateIso :: "DedupedRow \<Rightarrow> string option" where
  "rowDateIso (BalanceRow row) = dateIso row"
| "rowDateIso (TransactionRow d a) = Some d"

fun rowAmount :: "DedupedRow \<Rightarrow> number option" where
  "rowAmount (BalanceRow row) = amount row"
| "rowAmount (TransactionRow d a) = Some a"

text \<open>The body of the \<open>forEach\<close> in balance mode, on the map and \<open>duplicateCount\<close>.\<close>

definition balanceStep ::
  "(string, NormalizedRow) jsmap \<times> nat \<Rightarrow> NormalizedRow \<Rightarrow> (string, NormalizedRow) jsmap \<times> nat"
where
  "balanceStep acc row =
     (case dateIso row of
        None \<Rightarrow> acc
      | Some d \<Rightarrow>
          if d = [] then acc
          else (mapSet (fst acc) d row, if mapHas (fst acc) d then snd acc + 1 else snd acc))"

text \<open>The comparator of the sort in balance mode.\<close>

definition compareRows :: "runtime \<Rightarrow> NormalizedRow \<Rightarrow> NormalizedRow \<Rightarrow> int" where
  "compareRows rt a b =
     (case dateIso a of
        None \<Rightarrow> 0
      | Some x \<Rightarrow>
          (case dateIso b of
             None \<Rightarrow> 0
           | Some y \<Rightarrow> if x = [] \<or> y = [] then 0 else localeCompare rt x y))"

text \<open>The body of the \<open>forEach\<close> in transactions mode.\<close>

definition transactionStep ::
  "(string, string \<times> number) jsmap \<times> nat \<Rightarrow> NormalizedRow \<Rightarrow>
   (string, string \<times> number) jsmap \<times> nat"
where
  "transactionStep acc row =
     (case dateIso row of
        None \<Rightarrow> acc
      | Some d \<Rightarrow>
          if d = [] then acc
          else
            (case amount row of
               None \<Rightarrow> acc
             | Some a \<Rightarrow>
                 (mapSet (fst acc) d
                    (d, add (case mapGet (fst acc) d of None \<Rightarrow> Finite 0 | Some e \<Rightarrow> snd e) a),
                  if mapHas (fst acc) d then snd acc + 1 else snd acc)))"

text \<open>\<open>dedupedRows\<close> returns the pair of \<open>rows\<close> and \<open>duplicateCount\<close>.\<close>

definition dedupedRows ::
  "runtime \<Rightarrow> StatementType \<Rightarrow> NormalizedRow list \<Rightarrow> DedupedRow list \<times> nat"
where
  "dedupedRows rt statementType rs =
     (if statementType = Balance then
        (let acc = foldl balanceStep ([], 0) rs
         in (map BalanceRow (sortBy (compareRows rt) (mapValues (fst acc))), snd acc))
      else
        (let acc = foldl transactionStep ([], 0) rs
         in (map (\<lambda>e. TransactionRow (fst e) (snd e))
               (sortBy (\<lambda>a b. localeCompare rt (fst a) (fst b)) (mapValues (fst acc))),
             snd acc)))"

subsection \<open>startingBalance and importEntries\<close>

definition startingBalance :: "runtime \<Rightarrow> StatementType \<Rightarrow> string \<Rightarrow> number option" where
  "startingBalance rt statementType startingBalanceInput =
     (if statementType = Transactions then parseAmount rt startingBalanceInput else None)"

text \<open>
  An import entry.  Its date is built by \<open>new Date(row.dateIso ?? '')\<close>; the model keeps the
  text the date is built from.
\<close>

record ImportEntry =
  accountId :: string
  entryAmount :: number
  entryDate :: string

definition amountOrZero :: "DedupedRow \<Rightarrow> number" where
  "amountOrZero row = (case rowAmount row of None \<Rightarrow> Finite 0 | Some a \<Rightarrow> a)"

definition dateOrEmpty :: "DedupedRow \<Rightarrow> string" where
  "dateOrEmpty row = (case rowDateIso row of None \<Rightarrow> [] | Some d \<Rightarrow> d)"

text \<open>
  The \<open>map\<close> of transactions mode, which updates \<open>runningBalance\<close> as it goes: the running
  balance is passed along.
\<close>

fun runningEntries :: "string \<Rightarrow> number \<Rightarrow> DedupedRow list \<Rightarrow> ImportEntry list" where
  "runningEntries acct runningBalance [] = []"
| "runningEntries acct runningBalance (row # rest) =
     \<lparr>accountId = acct, entryAmount = add runningBalance (amountOrZero row),
      entryDate = dateOrEmpty row\<rparr>
     # runningEntries acct (add runningBalance (amountOrZero row)) rest"

definition importEntries ::
  "string \<Rightarrow> StatementType \<Rightarrow> DedupedRow list \<Rightarrow> number option \<Rightarrow> ImportEntry list"
where
  "importEntries selectedAccountId statementType rs startingBal =
     (if selectedAccountId = [] then []
      else if statementType = Balance then
        map (\<lambda>row. \<lparr>accountId = selectedAccountId, entryAmount = amountOrZero row,
                    entryDate = dateOrEmpty row\<rparr>) rs
      else
        (case startingBal of
           None \<Rightarrow> []
         | Some s \<Rightarrow> runningEntries selectedAccountId s rs))"

subsection \<open>Vocabulary for the statements about deduplication\<close>

text \<open>The date and the amount of a normalized row, as their readers take them.\<close>

definition dateOf :: "NormalizedRow \<Rightarrow> string" where
  "dateOf row = (case dateIso row of None \<Rightarrow> [] | Some d \<Rightarrow> d)"

definition amountOf :: "NormalizedRow \<Rightarrow> number" where
  "amountOf row = (case amount row of None \<Rightarrow> Finite 0 | Some a \<Rightarrow> a)"

text \<open>The rows that share the date \<open>d\<close>, in input order.\<close>

definition sameDate :: "string \<Rightarrow> NormalizedRow list \<Rightarrow> NormalizedRow list" where
  "sameDate d rs = filter (\<lambda>r. dateIso r = Some d) rs"

text \<open>The distinct dates of the rows, each once, in ascending order of code units.\<close>

definition datesOf :: "NormalizedRow list \<Rightarrow> string list" where
  "datesOf rs = sorted_list_of_set (set (map dateOf rs))"

text \<open>A date without a sign: digits and hyphens only.\<close>

definition unsignedDate :: "string \<Rightarrow> bool" where
  "unsignedDate d = list_all (\<lambda>c. isDigit c \<or> c = CHR ''-'') d"

text \<open>A date of the form \<open>YYYY-MM-DD\<close>.\<close>

fun isoShaped :: "string \<Rightarrow> bool" where
  "isoShaped [y1, y2, y3, y4, s1, m1, m2, s2, d1, d2] =
     (isDigit y1 \<and> isDigit y2 \<and> isDigit y3 \<and> isDigit y4 \<and> s1 = CHR ''-'' \<and>
      isDigit m1 \<and> isDigit m2 \<and> s2 = CHR ''-'' \<and> isDigit d1 \<and> isDigit d2)"
| "isoShaped d = False"

text \<open>A valid normalized row with the given row number, date and finite amount.\<close>

definition rowWith :: "nat \<Rightarrow> string \<Rightarrow> real \<Rightarrow> NormalizedRow" where
  "rowWith i d a =
     \<lparr>rowIndex = i, rawDate = d, rawValue = [], dateIso = Some d, amount = Some (Finite a)\<rparr>"

section \<open>The date normalizer\<close>

datatype DateFormat = Auto | Mdy | Dmy | Ymd

subsection \<open>Numbers from strings, comparisons\<close>

text \<open>
  \<open>Number(s)\<close>.  A string of 1 to 15 decimal digits denotes its decimal value, which a
  double holds exactly.
\<close>

definition Number :: "runtime \<Rightarrow> string \<Rightarrow> number" where
  "Number rt s =
     (if length s > 0 \<and> length s \<le> 15 \<and> list_all isDigit s
      then Finite (real (decimalValue s))
      else stringToNumber rt s)"

text \<open>
  The comparisons greater-than, less-or-equal and strict equality on numbers; each is
  false when an operand is \<open>NaN\<close>.
\<close>

fun greater :: "number \<Rightarrow> number \<Rightarrow> bool" where
  "greater NaN y = False"
| "greater x NaN = False"
| "greater (Finite a) (Finite b) = (a > b)"
| "greater PosInfinity y = (y \<noteq> PosInfinity)"
| "greater x NegInfinity = (x \<noteq> NegInfinity)"
| "greater x y = False"

fun strictEq :: "number \<Rightarrow> number \<Rightarrow> bool" where
  "strictEq NaN y = False"
| "strictEq x NaN = False"
| "strictEq x y = (x = y)"

definition lessEq :: "number \<Rightarrow> number \<Rightarrow> bool" where
  "lessEq x y = (greater y x \<or> strictEq x y)"

subsection \<open>The library's Date, after ECMA-262\<close>

definition msPerDay :: int where
  "msPerDay = 86400000"

definition DayFromYear :: "int \<Rightarrow> int" where
  "DayFromYear y =
     365 * (y - 1970) + (y - 1969) div 4 - (y - 1901) div 100 + (y - 1601) div 400"

text \<open>1 in a leap year, 0 otherwise.\<close>

definition InLeapYear :: "int \<Rightarrow> int" where
  "InLeapYear y =
     (if y mod 4 \<noteq> 0 then 0 else if y mod 100 \<noteq> 0 then 1 else if y mod 400 \<noteq> 0 then 0 else 1)"

text \<open>
  The year of a day number: the largest \<open>y\<close> with \<open>DayFromYear y \<le> n\<close>.  It is computed
  from the mean length of the year, 146097 / 400 days, which is off by at most one year.
\<close>

definition YearFromDay :: "int \<Rightarrow> int" where
  "YearFromDay n =
     (let y0 = 1970 + (400 * n) div 146097
      in if n < DayFromYear y0 then y0 - 1
         else if DayFromYear (y0 + 1) \<le> n then y0 + 1
         else y0)"

definition DayWithinYear :: "int \<Rightarrow> int" where
  "DayWithinYear n = n - DayFromYear (YearFromDay n)"

text \<open>The day within the year on which the month with index \<open>mn\<close> (0 to 11) starts.\<close>

definition monthStart :: "int \<Rightarrow> int \<Rightarrow> int" where
  "monthStart leap mn =
     (if mn = 0 then 0 else if mn = 1 then 31 else if mn = 2 then 59 + leap
      else if mn = 3 then 90 + leap else if mn = 4 then 120 + leap
      else if mn = 5 then 151 + leap else if mn = 6 then 181 + leap
      else if mn = 7 then 212 + leap else if mn = 8 then 243 + leap
      else if mn = 9 then 273 + leap else if mn = 10 then 304 + leap
      else 334 + leap)"

definition MonthFromDay :: "int \<Rightarrow> int" where
  "MonthFromDay n =
     (let d = DayWithinYear n; leap = InLeapYear (YearFromDay n)
      in if d < 31 then 0 else if d < 59 + leap then 1 else if d < 90 + leap then 2
         else if d < 120 + leap then 3 else if d < 151 + leap then 4
         else if d < 181 + leap then 5 else if d < 212 + leap then 6
         else if d < 243 + leap then 7 else if d < 273 + leap then 8
         else if d < 304 + leap then 9 else if d < 334 + leap then 10
         else 11)"

definition DateFromDay :: "int \<Rightarrow> int" where
  "DateFromDay n =
     DayWithinYear n - monthStart (InLeapYear (YearFromDay n)) (MonthFromDay n) + 1"

text \<open>\<open>ToIntegerOrInfinity\<close> on a finite number: rounding towards zero.\<close>

definition truncate :: "real \<Rightarrow> int" where
  "truncate x = (if 0 \<le> x then \<lfloor>x\<rfloor> else \<lceil>x\<rceil>)"

text \<open>
  \<open>MakeDay\<close> on integers: the day number of the first of the month, counted from the year
  with the months carried over, plus the date minus one.  The standard lets \<open>MakeDay\<close> give
  \<open>NaN\<close> for arguments out of range; the model computes the day number for all integers
  and leaves the range to the clipping of the time value in \<open>Date.UTC\<close>.  A triple that
  \<open>toIsoDate\<close> accepts has its month from 1 to 12 and its day within the month, where the
  two agree.
\<close>

definition MakeDay :: "int \<Rightarrow> int \<Rightarrow> int \<Rightarrow> int" where
  "MakeDay y m dt =
     (let ym = y + m div 12; mn = m mod 12
      in DayFromYear ym + monthStart (InLeapYear ym) mn + dt - 1)"

text \<open>
  \<open>Date.UTC(year, month, day)\<close>, as a time value in milliseconds; \<open>None\<close> is the time value
  \<open>NaN\<close> of an invalid date.  A year from 0 to 99 stands for 1900 plus the year; a time
  value beyond 8.64e15 in absolute value is clipped to \<open>NaN\<close>.
\<close>

fun DateUTC :: "number \<Rightarrow> number \<Rightarrow> number \<Rightarrow> int option" where
  "DateUTC (Finite y) (Finite m) (Finite dt) =
     (let yi = truncate y;
          yr = (if 0 \<le> yi \<and> yi \<le> 99 then 1900 + yi else yi);
          tv = MakeDay yr (truncate m) (truncate dt) * msPerDay
      in if \<bar>tv\<bar> > 8640000000000000 then None else Some tv)"
| "DateUTC y m dt = None"

definition getUTCFullYear :: "int option \<Rightarrow> number" where
  "getUTCFullYear tv =
     (case tv of None \<Rightarrow> NaN | Some t \<Rightarrow> Finite (real_of_int (YearFromDay (t div msPerDay))))"

definition getUTCMonth :: "int option \<Rightarrow> number" where
  "getUTCMonth tv =
     (case tv of None \<Rightarrow> NaN | Some t \<Rightarrow> Finite (real_of_int (MonthFromDay (t div msPerDay))))"

definition getUTCDate :: "int option \<Rightarrow> number" where
  "getUTCDate tv =
     (case tv of None \<Rightarrow> NaN | Some t \<Rightarrow> Finite (real_of_int (DateFromDay (t div msPerDay))))"

text \<open>The last \<open>w\<close> decimal digits of \<open>n\<close>, with leading zeros.\<close>

fun padded :: "nat \<Rightarrow> nat \<Rightarrow> string" where
  "padded 0 n = []"
| "padded (Suc w) n = padded w (n div 10) @ [''0123456789'' ! (n mod 10)]"

text \<open>
  The date part of an ISO date-time text: the year with four digits, or with a sign and six
  digits outside 0 to 9999, then month and day with two digits.
\<close>

definition isoDateText :: "int \<Rightarrow> int \<Rightarrow> int \<Rightarrow> string" where
  "isoDateText y m d =
     (if 0 \<le> y \<and> y \<le> 9999 then padded 4 (nat y)
      else (if y < 0 then ''-'' else ''+'') @ padded 6 (nat \<bar>y\<bar>))
     @ ''-'' @ padded 2 (nat m) @ ''-'' @ padded 2 (nat d)"

text \<open>
  \<open>toISOString().split('T')[0]\<close>.  \<open>toISOString\<close> throws on an invalid date; \<open>toIsoDate\<close>
  does not reach it then.
\<close>

definition isoDatePart :: "int option \<Rightarrow> string" where
  "isoDatePart tv =
     (case tv of
        None \<Rightarrow> []
      | Some t \<Rightarrow>
          isoDateText (YearFromDay (t div msPerDay)) (MonthFromDay (t div msPerDay) + 1)
            (DateFromDay (t div msPerDay)))"

subsection \<open>toIsoDate, parseDateFromParts, normalizeDate\<close>

definition toIsoDate :: "number \<Rightarrow> number \<Rightarrow> number \<Rightarrow> string option" where
  "toIsoDate year month day =
     (let utcDate = DateUTC year (add month (Finite (- 1))) day
      in if \<not> strictEq (getUTCFullYear utcDate) year \<or>
            \<not> strictEq (add (getUTCMonth utcDate) (Finite 1)) month \<or>
            \<not> strictEq (getUTCDate utcDate) day
         then None
         else Some (isoDatePart utcDate))"

definition parseDateFromParts :: "runtime \<Rightarrow> string list \<Rightarrow> DateFormat \<Rightarrow> string option" where
  "parseDateFromParts rt parts format =
     (if length parts \<noteq> 3 then None
      else
        let part1 = trim (parts ! 0); part2 = trim (parts ! 1); part3 = trim (parts ! 2)
        in if part1 = [] \<or> part2 = [] \<or> part3 = [] then None
           else if format = Ymd \<and> length part1 = 4 then
             toIsoDate (Number rt part1) (Number rt part2) (Number rt part3)
           else if (format = Mdy \<or> format = Dmy) \<and> length part3 = 4 then
             (let month = (if format = Mdy then Number rt part1 else Number rt part2);
                  day = (if format = Mdy then Number rt part2 else Number rt part1)
              in toIsoDate (Number rt part3) month day)
           else if format = Auto then
             (if length part1 = 4 then
                toIsoDate (Number rt part1) (Number rt part2) (Number rt part3)
              else if length part3 = 4 then
                (let first = Number rt part1; second = Number rt part2
                 in if greater first (Finite 12) \<and> lessEq second (Finite 12)
                    then toIsoDate (Number rt part3) second first
                    else toIsoDate (Number rt part3) first second)
              else None)
           else None)"

text \<open>
  The two regular expressions of \<open>normalizeDate\<close>: three runs of digits separated by
  \<open>/\<close> or \<open>-\<close>, from the start to the end of the text, with the lengths the expression
  allows for each run.  A separator is no digit, so each run is a maximal run of digits.
\<close>

definition isSeparator :: "char \<Rightarrow> bool" where
  "isSeparator c = (c = CHR ''/'' \<or> c = CHR ''-'')"

definition matchRuns ::
  "(nat \<Rightarrow> bool) \<Rightarrow> (nat \<Rightarrow> bool) \<Rightarrow> (nat \<Rightarrow> bool) \<Rightarrow> string \<Rightarrow> (string \<times> string \<times> string) option"
where
  "matchRuns ok1 ok2 ok3 s =
     (let g1 = takeWhile isDigit s
      in case dropWhile isDigit s of
           [] \<Rightarrow> None
         | sep1 # r1 \<Rightarrow>
             (let g2 = takeWhile isDigit r1
              in case dropWhile isDigit r1 of
                   [] \<Rightarrow> None
                 | sep2 # r2 \<Rightarrow>
                     if isSeparator sep1 \<and> isSeparator sep2 \<and> list_all isDigit r2 \<and>
                        ok1 (length g1) \<and> ok2 (length g2) \<and> ok3 (length r2)
                     then Some (g1, g2, r2)
                     else None))"

definition isoMatch :: "string \<Rightarrow> (string \<times> string \<times> string) option" where
  "isoMatch s = matchRuns (\<lambda>n. n = 4) (\<lambda>n. 1 \<le> n \<and> n \<le> 2) (\<lambda>n. 1 \<le> n \<and> n \<le> 2) s"

definition numericMatch :: "string \<Rightarrow> (string \<times> string \<times> string) option" where
  "numericMatch s = matchRuns (\<lambda>n. 1 \<le> n \<and> n \<le> 2) (\<lambda>n. 1 \<le> n \<and> n \<le> 2) (\<lambda>n. n = 4) s"

text \<open>\<open>split\<close> on a separator character.\<close>

fun split :: "char \<Rightarrow> string \<Rightarrow> string list" where
  "split sep [] = [[]]"
| "split sep (c # cs) =
     (if c = sep then [] # split sep cs
      else (case split sep cs of [] \<Rightarrow> [[c]] | p # ps \<Rightarrow> (c # p) # ps))"

definition normalizeDate :: "runtime \<Rightarrow> string \<Rightarrow> DateFormat \<Rightarrow> string option" where
  "normalizeDate rt raw format =
     (let trimmed = trim raw in
      if trimmed = [] then None
      else
        (case isoMatch trimmed of
           Some (g1, g2, g3) \<Rightarrow> toIsoDate (Number rt g1) (Number rt g2) (Number rt g3)
         | None \<Rightarrow>
             (case numericMatch trimmed of
                Some (g1, g2, g3) \<Rightarrow> parseDateFromParts rt [g1, g2, g3] format
              | None \<Rightarrow>
                  (let altSeparators = split (CHR ''.'') trimmed;
                       normalized = (if length altSeparators = 3
                                     then parseDateFromParts rt altSeparators format else None)
                   in case normalized of
                        Some (c # cs) \<Rightarrow> Some (c # cs)
                      | _ \<Rightarrow>
                          (case parseDateText rt trimmed of
                             None \<Rightarrow> None
                           | Some (y, m, d) \<Rightarrow>
                               toIsoDate (Finite (real_of_int y)) (Finite (real_of_int (m + 1)))
                                 (Finite (real_of_int d)))))))"

subsection \<open>Vocabulary for the statements about dates\<close>

text \<open>The number of days of the month \<open>m\<close> (1 to 12) in a leap (1) or common (0) year.\<close>

definition daysInMonth :: "int \<Rightarrow> int \<Rightarrow> int" where
  "daysInMonth leap m =
     (if m = 2 then 28 + leap else if m = 4 \<or> m = 6 \<or> m = 9 \<or> m = 11 then 30 else 31)"

text \<open>A date of the calendar: the month from 1 to 12, the day within the month.\<close>

definition validDate :: "int \<Rightarrow> int \<Rightarrow> int \<Rightarrow> bool" where
  "validDate y m d = (1 \<le> m \<and> m \<le> 12 \<and> 1 \<le> d \<and> d \<le> daysInMonth (InLeapYear y) m)"

subsection \<open>A runtime for the examples\<close>

text \<open>
  Its \<open>Date\<close> reads the text \<open>02.30.2024\<close> as 1 March 2024 (month index 2), as that of V8
  does, which takes the text as month, day and year and lets the day run over into the next
  month.  The examples consult it on no other text, and consult the other three fields on
  no argument.
\<close>

definition exampleRuntime :: runtime where
  "exampleRuntime =
     \<lparr>roundToDouble = (\<lambda>x. Some x),
      stringToNumber = (\<lambda>s. NaN),
      parseDateText = (\<lambda>s. if s = ''02.30.2024'' then Some (2024, 2, 1) else None),
      collate = (\<lambda>a b. 0)\<rparr>"

section \<open>Properties of the tokenizer\<close>

lemmas char_defs = dquote_def comma_def newline_def cr_def

lemmas parseCsv_defs = parseCsv_def flush_def notBlank_def trim_def isSpace_def initial_def

lemma scan_quoted_body:
  "inQuotes st \<Longrightarrow>
   scan st (concat (map (\<lambda>c. if c = dquote then [dquote, dquote] else [c]) s) @ [dquote]) =
   st\<lparr>currentField := currentField st @ s, inQuotes := False\<rparr>"
proof (induction s arbitrary: st)
  case Nil
  then show ?case by simp
next
  case (Cons c s)
  then show ?case by simp
qed

lemma mem_dropWhile: "c \<in> set xs \<Longrightarrow> \<not> P c \<Longrightarrow> c \<in> set (dropWhile P xs)"
  by (induction xs) auto

lemma trim_not_empty:
  assumes "c \<in> set s" and "\<not> isSpace c"
  shows "trim s \<noteq> []"
proof -
  have "c \<in> set (rev (dropWhile isSpace s))"
    using assms by (simp add: mem_dropWhile)
  then have "c \<in> set (dropWhile isSpace (rev (dropWhile isSpace s)))"
    using assms(2) by (rule mem_dropWhile)
  then have "dropWhile isSpace (rev (dropWhile isSpace s)) \<noteq> []"
    by (rule_tac notI) simp
  then show ?thesis unfolding trim_def by simp
qed

lemma parseCsv_quoteField:
  assumes "trim s \<noteq> []"
  shows "parseCsv (quoteField s) = [[s]]"
proof -
  have "s \<noteq> []" using assms by (auto simp: trim_def)
  have "scan initial (quoteField s) = initial\<lparr>currentField := s, inQuotes := False\<rparr>"
    unfolding quoteField_def by (simp add: initial_def scan_quoted_body)
  then show ?thesis
    using assms \<open>s \<noteq> []\<close> by (simp add: parseCsv_def flush_def notBlank_def initial_def)
qed

lemma scan_crFree:
  "crFree st \<Longrightarrow> \<not> quotedCr (inQuotes st) inp \<Longrightarrow> crFree (scan st inp)"
proof (induction st inp rule: scan.induct)
  case (1 st)
  then show ?case by simp
next
  case (2 st c cs)
  show ?case
  proof (cases "inQuotes st")
    case True
    note q = True
    show ?thesis
    proof (cases "c = dquote")
      case True
      note cq = True
      show ?thesis
      proof (cases cs)
        case Nil
        with q cq "2.prems" show ?thesis by (simp add: crFree_def)
      next
        case (Cons d ds)
        show ?thesis
        proof (cases "d = dquote")
          case True
          have "crFree (st\<lparr>currentField := currentField st @ [dquote]\<rparr>)"
            using "2.prems"(1) by (simp add: crFree_def dquote_def cr_def)
          moreover have "\<not> quotedCr True ds"
            using "2.prems"(2) q cq Cons True by simp
          ultimately have "crFree (scan (st\<lparr>currentField := currentField st @ [dquote]\<rparr>) ds)"
            using "2.IH"(2)[OF q cq Cons True] q by simp
          then show ?thesis using q cq Cons True by simp
        next
          case False
          have "crFree (st\<lparr>inQuotes := False\<rparr>)"
            using "2.prems"(1) by (simp add: crFree_def)
          moreover have "\<not> quotedCr False cs"
            using "2.prems"(2) q cq Cons False by simp
          ultimately have "crFree (scan (st\<lparr>inQuotes := False\<rparr>) cs)"
            using "2.IH"(3)[OF q cq Cons False] by simp
          then show ?thesis using q cq Cons False by simp
        qed
      qed
    next
      case False
      have "c \<noteq> cr" "\<not> quotedCr True cs"
        using "2.prems"(2) q False by simp_all
      then have "crFree (st\<lparr>currentField := currentField st @ [c]\<rparr>)"
        using "2.prems"(1) by (simp add: crFree_def)
      then have "crFree (scan (st\<lparr>currentField := currentField st @ [c]\<rparr>) cs)"
        using "2.IH"(4)[OF q False] q \<open>\<not> quotedCr True cs\<close> by simp
      then show ?thesis using q False by simp
    qed
  next
    case False
    note q = False
    have st: "crFree st" by (rule "2.prems"(1))
    show ?thesis
    proof (cases "c = dquote")
      case True
      have "crFree (st\<lparr>inQuotes := True\<rparr>)"
        using st by (simp add: crFree_def)
      moreover have "\<not> quotedCr True cs"
        using "2.prems"(2) q True by simp
      ultimately have "crFree (scan (st\<lparr>inQuotes := True\<rparr>) cs)"
        using "2.IH"(5)[OF q True] by simp
      then show ?thesis using q True by simp
    next
      case False
      note nq = False
      have rest: "\<not> quotedCr False cs"
        using "2.prems"(2) q nq by simp
      show ?thesis
      proof (cases "c = comma")
        case True
        have "crFree (st\<lparr>currentRow := currentRow st @ [currentField st], currentField := []\<rparr>)"
          using st by (simp add: crFree_def)
        then have "crFree (scan (st\<lparr>currentRow := currentRow st @ [currentField st],
            currentField := []\<rparr>) cs)"
          using "2.IH"(6)[OF q nq True] rest q by simp
        then show ?thesis using q nq True by simp
      next
        case False
        note nc = False
        show ?thesis
        proof (cases "c = newline")
          case True
          have "crFree (st\<lparr>rows := rows st @ [currentRow st @ [currentField st]],
              currentRow := [], currentField := []\<rparr>)"
            using st by (simp add: crFree_def)
          then have "crFree (scan (st\<lparr>rows := rows st @ [currentRow st @ [currentField st]],
              currentRow := [], currentField := []\<rparr>) cs)"
            using "2.IH"(7)[OF q nq nc True] rest q by simp
          then show ?thesis using q nq nc True by simp
        next
          case False
          note nn = False
          show ?thesis
          proof (cases "c = cr")
            case True
            have "crFree (scan st cs)"
              using "2.IH"(8)[OF q nq nc nn True] st rest q by simp
            then show ?thesis using q nq nc nn True by simp
          next
            case False
            have "crFree (st\<lparr>currentField := currentField st @ [c]\<rparr>)"
              using st False by (simp add: crFree_def)
            then have "crFree (scan (st\<lparr>currentField := currentField st @ [c]\<rparr>) cs)"
              using "2.IH"(9)[OF q nq nc nn False] rest q by simp
            then show ?thesis using q nq nc nn False by simp
          qed
        qed
      qed
    qed
  qed
qed

lemma flush_crFree: "crFree st \<Longrightarrow> \<forall>row \<in> set (flush st). \<forall>field \<in> set row. cr \<notin> set field"
  by (auto simp: crFree_def flush_def)

text \<open>
  C6. A field that contains a comma, a newline and a quote, quoted by the convention,
  tokenizes to exactly one row with exactly one field: the field itself.
\<close>

theorem tokenize_quoted_field:
  assumes "comma \<in> set s" and "newline \<in> set s" and "dquote \<in> set s"
  shows "parseCsv (quoteField s) = [[s]]"
proof -
  have "\<not> isSpace comma" by (simp add: isSpace_def comma_def)
  with assms(1) have "trim s \<noteq> []" by (rule trim_not_empty)
  then show ?thesis by (rule parseCsv_quoteField)
qed

theorem tokenize_quoted_field_witness:
  "comma \<in> set [CHR ''a'', comma, newline, dquote, CHR ''b''] \<and>
   newline \<in> set [CHR ''a'', comma, newline, dquote, CHR ''b''] \<and>
   dquote \<in> set [CHR ''a'', comma, newline, dquote, CHR ''b''] \<and>
   parseCsv (quoteField [CHR ''a'', comma, newline, dquote, CHR ''b'']) =
     [[[CHR ''a'', comma, newline, dquote, CHR ''b'']]]"
  using tokenize_quoted_field [of "[CHR ''a'', comma, newline, dquote, CHR ''b'']"]
  by simp

text \<open>
  C7, as stated, fails: a carriage return inside a quoted region is appended to the field
  like any other character.  The quoted field \<open>x\<close>, carriage return, line feed, \<open>y\<close> keeps
  its carriage return.
\<close>

theorem quoted_cr_kept:
  "parseCsv [dquote, CHR ''x'', cr, newline, CHR ''y'', dquote] =
     [[[CHR ''x'', cr, newline, CHR ''y'']]] \<and>
   cr \<in> set [CHR ''x'', cr, newline, CHR ''y'']"
  by (simp add: parseCsv_defs char_defs)

text \<open>
  C7, amended. Carriage returns outside quoted regions are dropped: when no carriage
  return of the text lies inside a quoted region, no field of any row contains one.
\<close>

theorem unquoted_cr_ignored:
  assumes "\<not> quotedCr False inp"
  shows "\<forall>row \<in> set (parseCsv inp). \<forall>field \<in> set row. cr \<notin> set field"
proof -
  have "crFree initial" by (simp add: crFree_def initial_def)
  then have "crFree (scan initial inp)"
    using assms by (intro scan_crFree) (simp_all add: initial_def)
  then show ?thesis
    unfolding parseCsv_def using flush_crFree by auto
qed

theorem unquoted_cr_ignored_witness:
  "\<not> quotedCr False [CHR ''a'', comma, CHR ''b'', cr, newline, CHR ''c'', cr] \<and>
   parseCsv [CHR ''a'', comma, CHR ''b'', cr, newline, CHR ''c'', cr] = [[''a'', ''b''], [''c'']] \<and>
   cr \<notin> set (concat (concat (parseCsv [CHR ''a'', comma, CHR ''b'', cr, newline, CHR ''c'', cr])))"
  using unquoted_cr_ignored [of "[CHR ''a'', comma, CHR ''b'', cr, newline, CHR ''c'', cr]"]
  by (simp add: parseCsv_defs char_defs)

section \<open>Properties of the amount normalizer\<close>

lemmas amount_defs = parseAmount_def parseFloat_def unsignedLiteral_def exponentPart_def scale_def
  startsWith_def endsWith_def isStripped_def isDigit_def digitValue_def decimalValue_def trim_def
  isSpace_def toDouble_def exactDouble_def

lemma parseAmount_steps:
  "parseAmount rt raw =
     (if trim raw = [] then None
      else if parseFloat rt (numeralText raw) = NaN then None
      else Some (if negativeMarker raw then neg (absNumber (parseFloat rt (numeralText raw)))
                 else parseFloat rt (numeralText raw)))"
  by (simp add: parseAmount_def negativeMarker_def numeralText_def Let_def)


lemma takeWhile_digits:
  assumes "\<forall>c \<in> set ds. isDigit c" and "t = [] \<or> \<not> isDigit (hd t)"
  shows "takeWhile isDigit (ds @ t) = ds" and "dropWhile isDigit (ds @ t) = t"
proof -
  have t: "takeWhile isDigit t = []" "dropWhile isDigit t = t"
    using assms(2) by (cases t; simp)+
  show "takeWhile isDigit (ds @ t) = ds"
    using assms(1) t by (simp add: takeWhile_append2)
  show "dropWhile isDigit (ds @ t) = t"
    using assms(1) t by (simp add: dropWhile_append2)
qed










text \<open>
  C5. The amount normalizer maps \<open>(1,234.50)\<close> to -1234.50, \<open>-$45.00\<close> to -45.00 and a
  string of white space to absent.  Whenever a negative marker is present (enclosing
  parentheses, or a leading minus after stripping) and the remaining text parses, the
  result is minus the absolute value of the parsed numeral, whatever the numeral's own
  sign: the numerals \<open>-5\<close> and \<open>+5\<close> after a marker both give -5.
\<close>

theorem parseAmount_negative_marker:
  "parseAmount rt ''(1,234.50)'' = Some (Finite (- 1234.5)) \<and>
   parseAmount rt ''-$45.00'' = Some (Finite (- 45)) \<and>
   parseAmount rt ''  '' = None \<and>
   parseAmount rt ''--5'' = Some (Finite (- 5)) \<and>
   parseAmount rt ''-+5'' = Some (Finite (- 5)) \<and>
   (trim raw \<noteq> [] \<longrightarrow> negativeMarker raw \<longrightarrow> parseFloat rt (numeralText raw) \<noteq> NaN \<longrightarrow>
      parseAmount rt raw = Some (neg (absNumber (parseFloat rt (numeralText raw)))))"
proof -
  have "parseAmount rt ''(1,234.50)'' = Some (Finite (- 1234.5))"
    by (simp add: amount_defs Let_def)
  moreover have "parseAmount rt ''-$45.00'' = Some (Finite (- 45))"
    by (simp add: amount_defs Let_def)
  moreover have "parseAmount rt ''  '' = None"
    by (simp add: amount_defs Let_def)
  moreover have "parseAmount rt ''--5'' = Some (Finite (- 5))"
    by (simp add: amount_defs Let_def)
  moreover have "parseAmount rt ''-+5'' = Some (Finite (- 5))"
    by (simp add: amount_defs Let_def)
  ultimately show ?thesis
    by (simp add: parseAmount_steps)
qed

theorem parseAmount_negative_marker_witness:
  "trim ''(+7.5)'' \<noteq> [] \<and> negativeMarker ''(+7.5)'' \<and> numeralText ''(+7.5)'' = ''+7.5'' \<and>
   parseFloat exampleRuntime ''+7.5'' = Finite 7.5 \<and>
   parseAmount exampleRuntime ''(+7.5)'' = Some (Finite (- 7.5))"
  using parseAmount_negative_marker [of exampleRuntime "''(+7.5)''"]
  by (simp add: negativeMarker_def numeralText_def amount_defs Let_def)




section \<open>Properties of deduplication and import\<close>

lemma insertBy_insort_key:
  "\<forall>y \<in> set ys. (cmp x y \<le> 0) = (f x \<le> f y) \<Longrightarrow> insertBy cmp x ys = insort_key f x ys"
  by (induction ys) simp_all

lemma sortBy_sort_key:
  "\<forall>x \<in> set xs. \<forall>y \<in> set xs. (cmp x y \<le> 0) = (f x \<le> f y) \<Longrightarrow> sortBy cmp xs = sort_key f xs"
proof (induction xs)
  case Nil
  then show ?case by (simp add: sortBy_def)
next
  case (Cons x xs)
  then have "sortBy cmp xs = sort_key f xs" by simp
  moreover have "insertBy cmp x (sort_key f xs) = insort_key f x (sort_key f xs)"
    using Cons.prems by (intro insertBy_insort_key) simp
  ultimately show ?case by (simp add: sortBy_def)
qed

lemma distinct_map_sort_key: "distinct (map f (sort_key f xs)) = distinct (map f xs)"
  by (induction xs) (simp_all add: distinct_insort_key)

lemma map_sort_key_distinct:
  assumes "distinct (map f xs)"
  shows "map f (sort_key f xs) = sorted_list_of_set (f ` set xs)"
proof -
  have "sorted (map f (sort_key f xs))" by (rule sorted_sort_key)
  moreover have "distinct (map f (sort_key f xs))"
    using assms by (simp add: distinct_map_sort_key)
  ultimately have "sorted_list_of_set (set (map f (sort_key f xs))) = map f (sort_key f xs)"
    by (rule sorted_list_of_set.idem_if_sorted_distinct)
  then show ?thesis by simp
qed

lemma sorted_values:
  assumes dist: "distinct (map fst m)"
    and key: "\<forall>p \<in> set m. f (snd p) = fst p"
    and cmp: "\<forall>a \<in> snd ` set m. \<forall>b \<in> snd ` set m. (cmp a b \<le> 0) = (f a \<le> f b)"
  shows "sortBy cmp (map snd m) = map (\<lambda>k. the (map_of m k)) (sorted_list_of_set (fst ` set m))"
proof -
  let ?ys = "sort_key f (map snd m)"
  have keys: "map f (map snd m) = map fst m"
    using key by simp
  have "sortBy cmp (map snd m) = ?ys"
    using cmp by (intro sortBy_sort_key) simp
  moreover have "map f ?ys = sorted_list_of_set (fst ` set m)"
  proof -
    have "distinct (map f (map snd m))"
      by (simp only: keys dist)
    then have "map f ?ys = sorted_list_of_set (f ` set (map snd m))"
      by (rule map_sort_key_distinct)
    moreover have "f ` set (map snd m) = set (map f (map snd m))"
      by (simp only: set_map)
    then have "f ` set (map snd m) = fst ` set m"
      by (simp only: keys set_map)
    ultimately show ?thesis by (simp only:)
  qed
  moreover have "map (\<lambda>k. the (map_of m k)) (map f ?ys) = ?ys"
  proof -
    have "\<forall>y \<in> set ?ys. the (map_of m (f y)) = y"
    proof
      fix y assume "y \<in> set ?ys"
      then obtain p where p: "p \<in> set m" "y = snd p" by auto
      then have "f y = fst p" using key by simp
      moreover have "map_of m (fst p) = Some (snd p)"
        using dist p(1) by (cases p) simp
      ultimately show "the (map_of m (f y)) = y" using p(2) by simp
    qed
    then have "map (\<lambda>y. the (map_of m (f y))) ?ys = ?ys"
      by (intro map_idI) blast
    then show ?thesis by (simp only: map_map o_def)
  qed
  ultimately show ?thesis by simp
qed

lemma length_update:
  "length (AList.update k v al) = (if k \<in> set (map fst al) then length al else Suc (length al))"
  by (induction al) auto

lemma map_of_dom_iff: "(k \<in> set (map fst m)) = (map_of m k \<noteq> None)"
  by (simp add: map_of_eq_None_iff)

lemma isValid_cases:
  assumes "isValid r"
  obtains d a where "dateIso r = Some d" and "d \<noteq> []" and "amount r = Some a"
  using assms by (auto simp: isValid_def split: option.splits)

lemma sameDate_snoc:
  "sameDate d (rs @ [r]) = (if dateIso r = Some d then sameDate d rs @ [r] else sameDate d rs)"
  by (simp add: sameDate_def)

lemma balance_loop:
  assumes "\<forall>r \<in> set rs. isValid r"
  shows "distinct (map fst (fst (foldl balanceStep ([], 0) rs))) \<and>
    (\<forall>d. map_of (fst (foldl balanceStep ([], 0) rs)) d =
       (if sameDate d rs = [] then None else Some (last (sameDate d rs)))) \<and>
    snd (foldl balanceStep ([], 0) rs) + length (fst (foldl balanceStep ([], 0) rs)) = length rs"
  using assms
proof (induction rs rule: rev_induct)
  case Nil
  then show ?case by (simp add: sameDate_def)
next
  case (snoc r rs)
  let ?acc = "foldl balanceStep ([], 0) rs"
  from snoc.prems have "isValid r" by simp
  then obtain d0 a0 where r: "dateIso r = Some d0" "d0 \<noteq> []" "amount r = Some a0"
    by (rule isValid_cases)
  have IH: "distinct (map fst (fst ?acc))"
    "\<And>d. map_of (fst ?acc) d = (if sameDate d rs = [] then None else Some (last (sameDate d rs)))"
    "snd ?acc + length (fst ?acc) = length rs"
    using snoc by simp_all
  have step: "foldl balanceStep ([], 0) (rs @ [r]) =
    (AList.update d0 r (fst ?acc), if d0 \<in> set (map fst (fst ?acc)) then snd ?acc + 1 else snd ?acc)"
    using r by (simp add: balanceStep_def mapSet_def mapHas_def)
  have "distinct (map fst (AList.update d0 r (fst ?acc)))"
    using IH(1) by (rule distinct_update)
  moreover have "\<forall>d. map_of (AList.update d0 r (fst ?acc)) d =
      (if sameDate d (rs @ [r]) = [] then None else Some (last (sameDate d (rs @ [r]))))"
    using r(1) by (simp add: update_conv' sameDate_snoc IH(2))
  moreover have "(if d0 \<in> set (map fst (fst ?acc)) then snd ?acc + 1 else snd ?acc) +
      length (AList.update d0 r (fst ?acc)) = length (rs @ [r])"
    using IH(3) by (simp add: length_update)
  ultimately show ?case unfolding step by simp
qed

lemma transaction_loop:
  assumes "\<forall>r \<in> set rs. isValid r"
  shows "distinct (map fst (fst (foldl transactionStep ([], 0) rs))) \<and>
    (\<forall>d. map_of (fst (foldl transactionStep ([], 0) rs)) d =
       (if sameDate d rs = [] then None
        else Some (d, foldl add (Finite 0) (map amountOf (sameDate d rs))))) \<and>
    snd (foldl transactionStep ([], 0) rs) + length (fst (foldl transactionStep ([], 0) rs)) =
      length rs"
  using assms
proof (induction rs rule: rev_induct)
  case Nil
  then show ?case by (simp add: sameDate_def)
next
  case (snoc r rs)
  let ?acc = "foldl transactionStep ([], 0) rs"
  from snoc.prems have "isValid r" by simp
  then obtain d0 a0 where r: "dateIso r = Some d0" "d0 \<noteq> []" "amount r = Some a0"
    by (rule isValid_cases)
  have IH: "distinct (map fst (fst ?acc))"
    "\<And>d. map_of (fst ?acc) d =
       (if sameDate d rs = [] then None
        else Some (d, foldl add (Finite 0) (map amountOf (sameDate d rs))))"
    "snd ?acc + length (fst ?acc) = length rs"
    using snoc by simp_all
  let ?v = "(d0, add (case map_of (fst ?acc) d0 of None \<Rightarrow> Finite 0 | Some e \<Rightarrow> snd e) a0)"
  have step: "foldl transactionStep ([], 0) (rs @ [r]) =
    (AList.update d0 ?v (fst ?acc),
     if d0 \<in> set (map fst (fst ?acc)) then snd ?acc + 1 else snd ?acc)"
    using r by (simp add: transactionStep_def mapSet_def mapHas_def mapGet_def)
  have v: "?v = (d0, foldl add (Finite 0) (map amountOf (sameDate d0 (rs @ [r]))))"
    using r by (simp add: IH(2) sameDate_snoc amountOf_def)
  have "distinct (map fst (AList.update d0 ?v (fst ?acc)))"
    using IH(1) by (rule distinct_update)
  moreover have "\<forall>d. map_of (AList.update d0 ?v (fst ?acc)) d =
      (if sameDate d (rs @ [r]) = [] then None
       else Some (d, foldl add (Finite 0) (map amountOf (sameDate d (rs @ [r])))))"
  proof
    fix d
    show "map_of (AList.update d0 ?v (fst ?acc)) d =
      (if sameDate d (rs @ [r]) = [] then None
       else Some (d, foldl add (Finite 0) (map amountOf (sameDate d (rs @ [r])))))"
    proof (cases "d = d0")
      case True
      have "map_of (AList.update d0 ?v (fst ?acc)) d0 = Some ?v"
        by (simp add: update_conv')
      also have "\<dots> = Some (d0, foldl add (Finite 0) (map amountOf (sameDate d0 (rs @ [r]))))"
        by (simp only: v)
      finally show ?thesis using True r(1) by (simp add: sameDate_snoc)
    next
      case False
      then show ?thesis using r(1) by (simp add: update_conv' sameDate_snoc IH(2))
    qed
  qed
  moreover have "(if d0 \<in> set (map fst (fst ?acc)) then snd ?acc + 1 else snd ?acc) +
      length (AList.update d0 ?v (fst ?acc)) = length (rs @ [r])"
    using IH(3) by (simp add: length_update)
  ultimately show ?case unfolding step by simp
qed

lemma map_of_entry:
  assumes "distinct (map fst m)" and "p \<in> set m"
  shows "map_of m (fst p) = Some (snd p)"
proof (cases p)
  case (Pair k v)
  with assms show ?thesis by simp
qed

lemma weight_code:
  assumes "isDigit c \<or> c = CHR ''-''"
  shows "collationWeight c = (if of_char c = (45::nat) then 0 else of_char c - 46) \<and>
    (of_char c = (45::nat) \<or> 48 \<le> (of_char c :: nat))"
proof -
  have "c \<in> set ''-0123456789''"
    using assms by (auto simp: isDigit_def)
  then show ?thesis
    by (auto simp: collationWeight_def digitValue_def)
qed

lemma weight_less:
  assumes "isDigit x \<or> x = CHR ''-''" and "isDigit y \<or> y = CHR ''-''"
  shows "(collationWeight x < collationWeight y) = (x < y)"
proof -
  have "(collationWeight x < collationWeight y) = ((of_char x :: nat) < of_char y)"
    using weight_code[OF assms(1)] weight_code[OF assms(2)] by (auto split: if_splits)
  then show ?thesis by (simp add: less_char_def)
qed

lemma compareWeights_le:
  assumes "list_all (\<lambda>c. isDigit c \<or> c = CHR ''-'') a"
    and "list_all (\<lambda>c. isDigit c \<or> c = CHR ''-'') b"
  shows "(compareWeights (map collationWeight a) (map collationWeight b) \<le> 0) = (a \<le> b)"
  using assms
proof (induction a arbitrary: b)
  case Nil
  then show ?case by (cases b) simp_all
next
  case (Cons x xs)
  show ?case
  proof (cases b)
    case Nil
    then show ?thesis by simp
  next
    case b: (Cons y ys)
    have x: "isDigit x \<or> x = CHR ''-''" and y: "isDigit y \<or> y = CHR ''-''"
      using Cons.prems b by simp_all
    have IH: "(compareWeights (map collationWeight xs) (map collationWeight ys) \<le> 0) = (xs \<le> ys)"
      using Cons.prems b by (intro Cons.IH) simp_all
    have w: "(collationWeight x < collationWeight y) = (x < y)"
      "(collationWeight y < collationWeight x) = (y < x)"
      using x y by (simp_all add: weight_less)
    consider "x < y" | "y < x" | "x = y" by fastforce
    then have "(compareWeights (collationWeight x # map collationWeight xs)
        (collationWeight y # map collationWeight ys) \<le> 0) = (x # xs \<le> y # ys)"
    proof cases
      case 1
      then show ?thesis by (simp add: w)
    next
      case 2
      then have "\<not> x < y" and "x \<noteq> y" by simp_all
      then show ?thesis using 2 by (simp add: w)
    next
      case 3
      then show ?thesis by (simp add: IH)
    qed
    then show ?thesis using b by simp
  qed
qed

lemma localeCompare_le:
  assumes "unsignedDate a" and "unsignedDate b"
  shows "(localeCompare rt a b \<le> 0) = (a \<le> b)"
proof -
  have "list_all isDateChar a" and "list_all isDateChar b"
    using assms by (auto simp: unsignedDate_def isDateChar_def list_all_iff)
  then show ?thesis
    using assms by (simp add: localeCompare_def unsignedDate_def compareWeights_le)
qed

lemma insertBy_mset: "mset (insertBy cmp x ys) = add_mset x (mset ys)"
  by (induction ys) simp_all

lemma sortBy_mset: "mset (sortBy cmp xs) = mset xs"
  by (induction xs) (simp_all add: sortBy_def insertBy_mset)

lemma values_mset:
  assumes dist: "distinct (map fst m)"
  shows "mset (sortBy cmp (map snd m)) =
    mset (map (\<lambda>k. the (map_of m k)) (sorted_list_of_set (fst ` set m)))"
proof -
  have "map (\<lambda>p. the (map_of m (fst p))) m = map snd m"
  proof (rule map_cong[OF refl])
    fix p assume "p \<in> set m"
    then have "map_of m (fst p) = Some (snd p)"
      using dist by (intro map_of_entry)
    then show "the (map_of m (fst p)) = snd p" by simp
  qed
  then have "map snd m = map (\<lambda>k. the (map_of m k)) (map fst m)"
    by (simp add: o_def)
  moreover have "mset (map fst m) = mset (sorted_list_of_set (fst ` set m))"
  proof -
    have "set (map fst m) = set (sorted_list_of_set (fst ` set m))" by simp
    moreover have "distinct (sorted_list_of_set (fst ` set m))" by simp
    ultimately show ?thesis
      using dist set_eq_iff_mset_eq_distinct by blast
  qed
  ultimately have "mset (map snd m) =
      mset (map (\<lambda>k. the (map_of m k)) (sorted_list_of_set (fst ` set m)))"
    by (metis mset_map)
  then show ?thesis by (simp only: sortBy_mset)
qed

lemma dateOf_valid: "isValid r \<Longrightarrow> (dateIso r = Some d) = (dateOf r = d)"
  by (auto simp: isValid_def dateOf_def split: option.splits)

lemma sameDate_empty_iff:
  assumes "\<forall>r \<in> set rs. isValid r"
  shows "(sameDate d rs = []) = (d \<notin> set (map dateOf rs))"
proof -
  have "(sameDate d rs = []) = (\<forall>r \<in> set rs. dateIso r \<noteq> Some d)"
    by (simp add: sameDate_def filter_empty_conv)
  also have "\<dots> = (\<forall>r \<in> set rs. dateOf r \<noteq> d)"
    using assms dateOf_valid by blast
  finally show ?thesis by auto
qed

lemma last_sameDate:
  assumes "sameDate d rs \<noteq> []"
  shows "last (sameDate d rs) \<in> set rs" and "dateIso (last (sameDate d rs)) = Some d"
proof -
  have "last (sameDate d rs) \<in> set (sameDate d rs)"
    using assms by (rule last_in_set)
  then show "last (sameDate d rs) \<in> set rs" and "dateIso (last (sameDate d rs)) = Some d"
    by (simp_all add: sameDate_def)
qed

lemma keys_of_lookup:
  assumes "\<forall>d. (map_of m d = None) = (d \<notin> D)"
  shows "fst ` set m = D"
proof -
  have "\<forall>d. (d \<in> fst ` set m) = (d \<in> D)"
    using assms by (metis map_of_eq_None_iff)
  then show ?thesis by blast
qed

lemma length_datesOf:
  assumes "distinct (map fst m)" and "fst ` set m = set (map dateOf rs)"
  shows "length m = length (datesOf rs)"
proof -
  have "length m = card (fst ` set m)"
    using assms(1) by (metis distinct_card length_map set_map)
  then show ?thesis using assms(2) by (simp add: datesOf_def)
qed

text \<open>What the loop of balance mode leaves in the map, read at the dates of the rows.\<close>

lemma balance_values:
  assumes valid: "\<forall>r \<in> set rs. isValid r"
  shows "distinct (map fst (fst (foldl balanceStep ([], 0) rs)))"
    and "fst ` set (fst (foldl balanceStep ([], 0) rs)) = set (map dateOf rs)"
    and "\<forall>p \<in> set (fst (foldl balanceStep ([], 0) rs)).
           snd p \<in> set rs \<and> dateIso (snd p) = Some (fst p)"
    and "map (\<lambda>k. the (map_of (fst (foldl balanceStep ([], 0) rs)) k)) (datesOf rs) =
           map (\<lambda>d. last (sameDate d rs)) (datesOf rs)"
    and "snd (foldl balanceStep ([], 0) rs) = length rs - length (datesOf rs)"
proof -
  let ?m = "fst (foldl balanceStep ([], 0) rs)"
  let ?n = "snd (foldl balanceStep ([], 0) rs)"
  have dist: "distinct (map fst ?m)"
    and look: "\<And>d. map_of ?m d = (if sameDate d rs = [] then None else Some (last (sameDate d rs)))"
    and count: "?n + length ?m = length rs"
    using balance_loop[OF valid] by simp_all
  have keys: "fst ` set ?m = set (map dateOf rs)"
    by (rule keys_of_lookup) (simp add: look sameDate_empty_iff[OF valid])
  show "distinct (map fst ?m)" by (rule dist)
  show "fst ` set ?m = set (map dateOf rs)" by (rule keys)
  show "\<forall>p \<in> set ?m. snd p \<in> set rs \<and> dateIso (snd p) = Some (fst p)"
  proof
    fix p assume "p \<in> set ?m"
    then have "map_of ?m (fst p) = Some (snd p)"
      using dist by (intro map_of_entry)
    then have "sameDate (fst p) rs \<noteq> []" and "snd p = last (sameDate (fst p) rs)"
      by (simp_all add: look split: if_splits)
    then show "snd p \<in> set rs \<and> dateIso (snd p) = Some (fst p)"
      using last_sameDate[of "fst p" rs] by simp
  qed
  show "map (\<lambda>k. the (map_of ?m k)) (datesOf rs) = map (\<lambda>d. last (sameDate d rs)) (datesOf rs)"
  proof (rule map_cong[OF refl])
    fix d assume "d \<in> set (datesOf rs)"
    then have "d \<in> set (map dateOf rs)" by (simp add: datesOf_def)
    then have "sameDate d rs \<noteq> []"
      using sameDate_empty_iff[OF valid] by simp
    then show "the (map_of ?m d) = last (sameDate d rs)"
      by (simp add: look)
  qed
  have "length ?m = length (datesOf rs)"
    using dist keys by (rule length_datesOf)
  then show "?n = length rs - length (datesOf rs)"
    using count by simp
qed

text \<open>The same for the loop of transactions mode.\<close>

lemma transaction_values:
  assumes valid: "\<forall>r \<in> set rs. isValid r"
  shows "distinct (map fst (fst (foldl transactionStep ([], 0) rs)))"
    and "fst ` set (fst (foldl transactionStep ([], 0) rs)) = set (map dateOf rs)"
    and "\<forall>p \<in> set (fst (foldl transactionStep ([], 0) rs)). fst (snd p) = fst p"
    and "map (\<lambda>k. the (map_of (fst (foldl transactionStep ([], 0) rs)) k)) (datesOf rs) =
           map (\<lambda>d. (d, foldl add (Finite 0) (map amountOf (sameDate d rs)))) (datesOf rs)"
    and "snd (foldl transactionStep ([], 0) rs) = length rs - length (datesOf rs)"
proof -
  let ?m = "fst (foldl transactionStep ([], 0) rs)"
  let ?n = "snd (foldl transactionStep ([], 0) rs)"
  have dist: "distinct (map fst ?m)"
    and look: "\<And>d. map_of ?m d =
      (if sameDate d rs = [] then None
       else Some (d, foldl add (Finite 0) (map amountOf (sameDate d rs))))"
    and count: "?n + length ?m = length rs"
    using transaction_loop[OF valid] by simp_all
  have keys: "fst ` set ?m = set (map dateOf rs)"
    by (rule keys_of_lookup) (simp add: look sameDate_empty_iff[OF valid])
  show "distinct (map fst ?m)" by (rule dist)
  show "fst ` set ?m = set (map dateOf rs)" by (rule keys)
  show "\<forall>p \<in> set ?m. fst (snd p) = fst p"
  proof
    fix p assume "p \<in> set ?m"
    then have "map_of ?m (fst p) = Some (snd p)"
      using dist by (intro map_of_entry)
    then have "snd p = (fst p, foldl add (Finite 0) (map amountOf (sameDate (fst p) rs)))"
      by (simp add: look split: if_splits)
    then show "fst (snd p) = fst p"
      by (metis fst_conv)
  qed
  show "map (\<lambda>k. the (map_of ?m k)) (datesOf rs) =
      map (\<lambda>d. (d, foldl add (Finite 0) (map amountOf (sameDate d rs)))) (datesOf rs)"
  proof (rule map_cong[OF refl])
    fix d assume "d \<in> set (datesOf rs)"
    then have "d \<in> set (map dateOf rs)" by (simp add: datesOf_def)
    then have "sameDate d rs \<noteq> []"
      using sameDate_empty_iff[OF valid] by simp
    then show "the (map_of ?m d) = (d, foldl add (Finite 0) (map amountOf (sameDate d rs)))"
      by (simp add: look)
  qed
  have "length ?m = length (datesOf rs)"
    using dist keys by (rule length_datesOf)
  then show "?n = length rs - length (datesOf rs)"
    using count by simp
qed

text \<open>The rows of the result up to their order, for every comparison of the runtime.\<close>

lemma dedupedRows_balance_mset:
  assumes valid: "\<forall>r \<in> set rs. isValid r"
  shows "mset (fst (dedupedRows rt Balance rs)) =
      mset (map (\<lambda>d. BalanceRow (last (sameDate d rs))) (datesOf rs))"
    and "snd (dedupedRows rt Balance rs) = length rs - length (datesOf rs)"
proof -
  let ?m = "fst (foldl balanceStep ([], 0) rs)"
  note v = balance_values[OF valid]
  have "mset (sortBy (compareRows rt) (map snd ?m)) =
      mset (map (\<lambda>k. the (map_of ?m k)) (sorted_list_of_set (fst ` set ?m)))"
    using v(1) by (rule values_mset)
  also have "\<dots> = mset (map (\<lambda>k. the (map_of ?m k)) (datesOf rs))"
    by (simp only: v(2) datesOf_def)
  also have "\<dots> = mset (map (\<lambda>d. last (sameDate d rs)) (datesOf rs))"
    by (simp only: v(4))
  finally have "mset (map BalanceRow (sortBy (compareRows rt) (map snd ?m))) =
      mset (map BalanceRow (map (\<lambda>d. last (sameDate d rs)) (datesOf rs)))"
    by (simp only: mset_map)
  then show "mset (fst (dedupedRows rt Balance rs)) =
      mset (map (\<lambda>d. BalanceRow (last (sameDate d rs))) (datesOf rs))"
    by (simp add: dedupedRows_def mapValues_def Let_def o_def)
  show "snd (dedupedRows rt Balance rs) = length rs - length (datesOf rs)"
    using v(5) by (simp add: dedupedRows_def Let_def)
qed

lemma dedupedRows_transactions_mset:
  assumes valid: "\<forall>r \<in> set rs. isValid r"
  shows "mset (fst (dedupedRows rt Transactions rs)) =
      mset (map (\<lambda>d. TransactionRow d (foldl add (Finite 0) (map amountOf (sameDate d rs))))
        (datesOf rs))"
    and "snd (dedupedRows rt Transactions rs) = length rs - length (datesOf rs)"
proof -
  let ?m = "fst (foldl transactionStep ([], 0) rs)"
  let ?cmp = "\<lambda>a b :: string \<times> number. localeCompare rt (fst a) (fst b)"
  let ?row = "\<lambda>e :: string \<times> number. TransactionRow (fst e) (snd e)"
  note v = transaction_values[OF valid]
  have "mset (sortBy ?cmp (map snd ?m)) =
      mset (map (\<lambda>k. the (map_of ?m k)) (sorted_list_of_set (fst ` set ?m)))"
    using v(1) by (rule values_mset)
  also have "\<dots> = mset (map (\<lambda>k. the (map_of ?m k)) (datesOf rs))"
    by (simp only: v(2) datesOf_def)
  also have "\<dots> =
      mset (map (\<lambda>d. (d, foldl add (Finite 0) (map amountOf (sameDate d rs)))) (datesOf rs))"
    by (simp only: v(4))
  finally have "mset (map ?row (sortBy ?cmp (map snd ?m))) =
      mset (map ?row
        (map (\<lambda>d. (d, foldl add (Finite 0) (map amountOf (sameDate d rs)))) (datesOf rs)))"
    by (simp only: mset_map)
  then show "mset (fst (dedupedRows rt Transactions rs)) =
      mset (map (\<lambda>d. TransactionRow d (foldl add (Finite 0) (map amountOf (sameDate d rs))))
        (datesOf rs))"
    by (simp add: dedupedRows_def mapValues_def Let_def o_def)
  show "snd (dedupedRows rt Transactions rs) = length rs - length (datesOf rs)"
    using v(5) by (simp add: dedupedRows_def Let_def)
qed

text \<open>The rows of the result in their order, when no date has a sign.\<close>

lemma dedupedRows_balance:
  assumes valid: "\<forall>r \<in> set rs. isValid r"
    and unsigned: "\<forall>r \<in> set rs. unsignedDate (dateOf r)"
  shows "fst (dedupedRows rt Balance rs) =
    map (\<lambda>d. BalanceRow (last (sameDate d rs))) (datesOf rs)"
proof -
  let ?m = "fst (foldl balanceStep ([], 0) rs)"
  note v = balance_values[OF valid]
  have key: "\<forall>p \<in> set ?m. dateOf (snd p) = fst p"
    using v(3) by (simp add: dateOf_def)
  have cmp: "\<forall>a \<in> snd ` set ?m. \<forall>b \<in> snd ` set ?m.
      (compareRows rt a b \<le> 0) = (dateOf a \<le> dateOf b)"
  proof (intro ballI)
    fix a b assume "a \<in> snd ` set ?m" and "b \<in> snd ` set ?m"
    then have ab: "a \<in> set rs" "b \<in> set rs"
      using v(3) by auto
    then have "isValid a" and "isValid b"
      using valid by simp_all
    then obtain x y where x: "dateIso a = Some x" "x \<noteq> []" and y: "dateIso b = Some y" "y \<noteq> []"
      by (auto simp: isValid_def split: option.splits)
    have "unsignedDate x" and "unsignedDate y"
      using unsigned ab x(1) y(1) by (auto simp: dateOf_def)
    then have "(localeCompare rt x y \<le> 0) = (x \<le> y)"
      by (rule localeCompare_le)
    then show "(compareRows rt a b \<le> 0) = (dateOf a \<le> dateOf b)"
      using x y by (simp add: compareRows_def dateOf_def)
  qed
  have "sortBy (compareRows rt) (map snd ?m) =
      map (\<lambda>k. the (map_of ?m k)) (sorted_list_of_set (fst ` set ?m))"
    using v(1) key cmp by (rule sorted_values)
  also have "\<dots> = map (\<lambda>k. the (map_of ?m k)) (datesOf rs)"
    by (simp only: v(2) datesOf_def)
  also have "\<dots> = map (\<lambda>d. last (sameDate d rs)) (datesOf rs)"
    by (simp only: v(4))
  finally show ?thesis
    by (simp add: dedupedRows_def mapValues_def Let_def o_def)
qed

lemma dedupedRows_transactions:
  assumes valid: "\<forall>r \<in> set rs. isValid r"
    and unsigned: "\<forall>r \<in> set rs. unsignedDate (dateOf r)"
  shows "fst (dedupedRows rt Transactions rs) =
    map (\<lambda>d. TransactionRow d (foldl add (Finite 0) (map amountOf (sameDate d rs)))) (datesOf rs)"
proof -
  let ?m = "fst (foldl transactionStep ([], 0) rs)"
  let ?cmp = "\<lambda>a b :: string \<times> number. localeCompare rt (fst a) (fst b)"
  note v = transaction_values[OF valid]
  have cmp: "\<forall>a \<in> snd ` set ?m. \<forall>b \<in> snd ` set ?m. (?cmp a b \<le> 0) = (fst a \<le> fst b)"
  proof (intro ballI)
    fix a b assume "a \<in> snd ` set ?m" and "b \<in> snd ` set ?m"
    then have "fst a \<in> fst ` set ?m" and "fst b \<in> fst ` set ?m"
      using v(3) by force+
    then have "fst a \<in> dateOf ` set rs" and "fst b \<in> dateOf ` set rs"
      using v(2) by simp_all
    then have "unsignedDate (fst a)" and "unsignedDate (fst b)"
      using unsigned by auto
    then show "(?cmp a b \<le> 0) = (fst a \<le> fst b)"
      by (rule localeCompare_le)
  qed
  have "sortBy ?cmp (map snd ?m) =
      map (\<lambda>k. the (map_of ?m k)) (sorted_list_of_set (fst ` set ?m))"
    using v(1,3) cmp by (rule sorted_values)
  also have "\<dots> = map (\<lambda>k. the (map_of ?m k)) (datesOf rs)"
    by (simp only: v(2) datesOf_def)
  also have "\<dots> = map (\<lambda>d. (d, foldl add (Finite 0) (map amountOf (sameDate d rs)))) (datesOf rs)"
    by (simp only: v(4))
  finally show ?thesis
    by (simp add: dedupedRows_def mapValues_def Let_def o_def)
qed

lemmas dedupe_defs = dedupedRows_def balanceStep_def transactionStep_def mapSet_def mapGet_def
  mapHas_def mapValues_def sortBy_def compareRows_def localeCompare_def isDateChar_def
  collationWeight_def isDigit_def digitValue_def

lemmas import_defs = importEntries_def startingBalance_def amountOrZero_def dateOrEmpty_def

lemma isValid_rowWith: "isValid (rowWith i d a) = (d \<noteq> [])"
  by (simp add: isValid_def rowWith_def)

text \<open>
  C2. For valid rows the deduplicator returns one entry per date: in balance mode the last
  row of the date in input order, in transactions mode the date with the sum of the
  amounts of its rows, added from 0 in input order.  The entries are stated up to their
  order, as a multiset.  In both modes \<open>duplicateCount\<close> is the number of rows minus the
  number of distinct dates.  Two balance rows of 2024-01-05 with 100 and then 150 give the
  one entry with 150 and \<open>duplicateCount\<close> 1.
\<close>

theorem dedupe_policy:
  assumes "\<forall>r \<in> set rs. isValid r"
  shows "mset (fst (dedupedRows rt Balance rs)) =
      mset (map (\<lambda>d. BalanceRow (last (sameDate d rs))) (datesOf rs)) \<and>
    snd (dedupedRows rt Balance rs) = length rs - length (datesOf rs) \<and>
    mset (fst (dedupedRows rt Transactions rs)) =
      mset (map (\<lambda>d. TransactionRow d (foldl add (Finite 0) (map amountOf (sameDate d rs))))
        (datesOf rs)) \<and>
    snd (dedupedRows rt Transactions rs) = length rs - length (datesOf rs) \<and>
    dedupedRows rt Balance [rowWith 2 ''2024-01-05'' 100, rowWith 3 ''2024-01-05'' 150] =
      ([BalanceRow (rowWith 3 ''2024-01-05'' 150)], 1)"
proof -
  have "dedupedRows rt Balance [rowWith 2 ''2024-01-05'' 100, rowWith 3 ''2024-01-05'' 150] =
      ([BalanceRow (rowWith 3 ''2024-01-05'' 150)], 1)"
    by (simp add: dedupe_defs rowWith_def)
  then show ?thesis
    using dedupedRows_balance_mset[OF assms] dedupedRows_transactions_mset[OF assms]
    by (intro conjI)
qed

theorem dedupe_policy_witness:
  "isValid (rowWith 2 ''2024-01-06'' 100) \<and> isValid (rowWith 3 ''2024-01-05'' 50) \<and>
   isValid (rowWith 4 ''2024-01-05'' (- 20)) \<and>
   datesOf [rowWith 2 ''2024-01-06'' 100, rowWith 3 ''2024-01-05'' 50,
     rowWith 4 ''2024-01-05'' (- 20)] = [''2024-01-05'', ''2024-01-06''] \<and>
   mset (fst (dedupedRows exampleRuntime Balance
     [rowWith 2 ''2024-01-06'' 100, rowWith 3 ''2024-01-05'' 50,
      rowWith 4 ''2024-01-05'' (- 20)])) =
     mset [BalanceRow (rowWith 4 ''2024-01-05'' (- 20)), BalanceRow (rowWith 2 ''2024-01-06'' 100)] \<and>
   mset (fst (dedupedRows exampleRuntime Transactions
     [rowWith 2 ''2024-01-06'' 100, rowWith 3 ''2024-01-05'' 50,
      rowWith 4 ''2024-01-05'' (- 20)])) =
     mset [TransactionRow ''2024-01-05'' (Finite 30), TransactionRow ''2024-01-06'' (Finite 100)] \<and>
   snd (dedupedRows exampleRuntime Balance
     [rowWith 2 ''2024-01-06'' 100, rowWith 3 ''2024-01-05'' 50,
      rowWith 4 ''2024-01-05'' (- 20)]) = 1"
proof -
  let ?rs = "[rowWith 2 ''2024-01-06'' 100, rowWith 3 ''2024-01-05'' 50,
     rowWith 4 ''2024-01-05'' (- 20)]"
  have valid: "\<forall>r \<in> set ?rs. isValid r"
    by (simp add: isValid_rowWith)
  have "set (map dateOf ?rs) = {''2024-01-05'', ''2024-01-06''}"
    by (auto simp: dateOf_def rowWith_def)
  moreover have "sorted_list_of_set {''2024-01-05'', ''2024-01-06''} =
      [''2024-01-05'', ''2024-01-06'']"
    by (simp add: less_char_def)
  ultimately have dates: "datesOf ?rs = [''2024-01-05'', ''2024-01-06'']"
    by (simp only: datesOf_def)
  have same: "sameDate ''2024-01-05'' ?rs =
      [rowWith 3 ''2024-01-05'' 50, rowWith 4 ''2024-01-05'' (- 20)]"
    "sameDate ''2024-01-06'' ?rs = [rowWith 2 ''2024-01-06'' 100]"
    by (simp_all add: sameDate_def rowWith_def)
  have sums: "\<And>i d a. amountOf (rowWith i d a) = Finite a"
    by (simp add: amountOf_def rowWith_def)
  note policy = dedupe_policy [OF valid, of exampleRuntime]
  have "mset (fst (dedupedRows exampleRuntime Balance ?rs)) =
      mset (map (\<lambda>d. BalanceRow (last (sameDate d ?rs))) [''2024-01-05'', ''2024-01-06''])"
    using policy[THEN conjunct1] by (simp only: dates)
  then have balance: "mset (fst (dedupedRows exampleRuntime Balance ?rs)) =
      mset [BalanceRow (rowWith 4 ''2024-01-05'' (- 20)), BalanceRow (rowWith 2 ''2024-01-06'' 100)]"
    by (simp add: same)
  have "mset (fst (dedupedRows exampleRuntime Transactions ?rs)) =
      mset (map (\<lambda>d. TransactionRow d (foldl add (Finite 0) (map amountOf (sameDate d ?rs))))
        [''2024-01-05'', ''2024-01-06''])"
    using policy[THEN conjunct2, THEN conjunct2, THEN conjunct1] by (simp only: dates)
  then have transactions: "mset (fst (dedupedRows exampleRuntime Transactions ?rs)) =
      mset [TransactionRow ''2024-01-05'' (Finite 30), TransactionRow ''2024-01-06'' (Finite 100)]"
    by (simp add: same sums)
  have "snd (dedupedRows exampleRuntime Balance ?rs) = length ?rs - length (datesOf ?rs)"
    using policy[THEN conjunct2, THEN conjunct1] .
  then have count: "snd (dedupedRows exampleRuntime Balance ?rs) = 1"
    by (simp add: dates)
  have "isValid (rowWith 2 ''2024-01-06'' 100)" "isValid (rowWith 3 ''2024-01-05'' 50)"
    "isValid (rowWith 4 ''2024-01-05'' (- 20))"
    by (simp_all add: isValid_rowWith)
  with dates balance transactions count show ?thesis
    by (intro conjI)
qed

lemma dateOrEmpty_last:
  assumes "d \<in> set (datesOf rs)" and "\<forall>r \<in> set rs. isValid r"
  shows "dateOrEmpty (BalanceRow (last (sameDate d rs))) = d"
proof -
  have "d \<in> set (map dateOf rs)" using assms(1) by (simp add: datesOf_def)
  then have "sameDate d rs \<noteq> []"
    using sameDate_empty_iff[OF assms(2)] by simp
  then show ?thesis
    using last_sameDate(2)[of d rs] by (simp add: dateOrEmpty_def)
qed

lemma dedupedRows_dates_mset:
  assumes "\<forall>r \<in> set rs. isValid r"
  shows "mset (map dateOrEmpty (fst (dedupedRows rt st rs))) = mset (datesOf rs)"
proof (cases st)
  case Balance
  have "map (\<lambda>d. dateOrEmpty (BalanceRow (last (sameDate d rs)))) (datesOf rs) = datesOf rs"
    using assms dateOrEmpty_last by (intro map_idI) blast
  then have "map dateOrEmpty (map (\<lambda>d. BalanceRow (last (sameDate d rs))) (datesOf rs)) =
      datesOf rs"
    by (simp add: o_def)
  moreover have "mset (map dateOrEmpty (fst (dedupedRows rt Balance rs))) =
      mset (map dateOrEmpty (map (\<lambda>d. BalanceRow (last (sameDate d rs))) (datesOf rs)))"
    using dedupedRows_balance_mset(1)[OF assms, of rt] by (simp only: mset_map)
  ultimately show ?thesis
    using Balance by simp
next
  case Transactions
  have "map dateOrEmpty (map (\<lambda>d. TransactionRow d
      (foldl add (Finite 0) (map amountOf (sameDate d rs)))) (datesOf rs)) = datesOf rs"
    by (simp add: o_def dateOrEmpty_def)
  moreover have "mset (map dateOrEmpty (fst (dedupedRows rt Transactions rs))) =
      mset (map dateOrEmpty (map (\<lambda>d. TransactionRow d
        (foldl add (Finite 0) (map amountOf (sameDate d rs)))) (datesOf rs)))"
    using dedupedRows_transactions_mset(1)[OF assms, of rt] by (simp only: mset_map)
  ultimately show ?thesis
    using Transactions by simp
qed

lemma dedupedRows_dates:
  assumes "\<forall>r \<in> set rs. isValid r" and "\<forall>r \<in> set rs. unsignedDate (dateOf r)"
  shows "map dateOrEmpty (fst (dedupedRows rt st rs)) = datesOf rs"
proof (cases st)
  case Balance
  have "map (\<lambda>d. dateOrEmpty (BalanceRow (last (sameDate d rs)))) (datesOf rs) = datesOf rs"
    using assms(1) dateOrEmpty_last by (intro map_idI) blast
  then show ?thesis
    using Balance dedupedRows_balance[OF assms] by (simp add: o_def)
next
  case Transactions
  then show ?thesis
    using dedupedRows_transactions[OF assms] by (simp add: o_def dateOrEmpty_def)
qed

lemma runningEntries_nth:
  "k < length ds \<Longrightarrow>
   runningEntries acct s ds ! k =
     \<lparr>accountId = acct, entryAmount = foldl add s (map amountOrZero (take (Suc k) ds)),
      entryDate = dateOrEmpty (ds ! k)\<rparr>"
proof (induction ds arbitrary: s k)
  case Nil
  then show ?case by simp
next
  case (Cons row rest)
  then show ?case by (cases k) simp_all
qed

lemma length_runningEntries: "length (runningEntries acct s ds) = length ds"
  by (induction ds arbitrary: s) simp_all

text \<open>
  C1. In transactions mode with starting balance \<open>s\<close>, the entry at position \<open>k\<close> carries the
  running balance after the first \<open>k + 1\<close> deduped amounts, added to \<open>s\<close> from left to
  right, and the date of the deduped row at position \<open>k\<close>; there is one entry per deduped
  row.  Starting balance 1000 with the day-1 rows +50 and -20 and the day-2 row +100 gives
  the entries 1030 for day 1 and 1130 for day 2.
\<close>

theorem running_balance:
  assumes "acct \<noteq> []" and "k < length ds"
  shows "length (importEntries acct Transactions ds (Some s)) = length ds \<and>
    importEntries acct Transactions ds (Some s) ! k =
      \<lparr>accountId = acct, entryAmount = foldl add s (map amountOrZero (take (Suc k) ds)),
       entryDate = dateOrEmpty (ds ! k)\<rparr> \<and>
    importEntries ''acct'' Transactions
      (fst (dedupedRows rt Transactions (validRows
         [rowWith 2 ''2024-01-01'' 50, rowWith 3 ''2024-01-01'' (- 20),
          rowWith 4 ''2024-01-02'' 100])))
      (startingBalance rt Transactions ''1000'') =
      [\<lparr>accountId = ''acct'', entryAmount = Finite 1030, entryDate = ''2024-01-01''\<rparr>,
       \<lparr>accountId = ''acct'', entryAmount = Finite 1130, entryDate = ''2024-01-02''\<rparr>]"
proof -
  have "dedupedRows rt Transactions (validRows
         [rowWith 2 ''2024-01-01'' 50, rowWith 3 ''2024-01-01'' (- 20),
          rowWith 4 ''2024-01-02'' 100]) =
      ([TransactionRow ''2024-01-01'' (Finite 30), TransactionRow ''2024-01-02'' (Finite 100)], 1)"
    by (simp add: dedupe_defs rowWith_def validRows_def isValid_def)
  moreover have "startingBalance rt Transactions ''1000'' = Some (Finite 1000)"
    by (simp add: startingBalance_def amount_defs Let_def)
  ultimately have "importEntries ''acct'' Transactions
      (fst (dedupedRows rt Transactions (validRows
         [rowWith 2 ''2024-01-01'' 50, rowWith 3 ''2024-01-01'' (- 20),
          rowWith 4 ''2024-01-02'' 100])))
      (startingBalance rt Transactions ''1000'') =
      [\<lparr>accountId = ''acct'', entryAmount = Finite 1030, entryDate = ''2024-01-01''\<rparr>,
       \<lparr>accountId = ''acct'', entryAmount = Finite 1130, entryDate = ''2024-01-02''\<rparr>]"
    by (simp add: importEntries_def amountOrZero_def dateOrEmpty_def)
  then show ?thesis
    using assms by (simp add: importEntries_def runningEntries_nth length_runningEntries)
qed

theorem running_balance_witness:
  "''acct'' \<noteq> [] \<and> (1::nat) < length [TransactionRow ''2024-01-01'' (Finite 30),
      TransactionRow ''2024-01-02'' (Finite 100), TransactionRow ''2024-01-05'' (Finite (- 5))] \<and>
   importEntries ''acct'' Transactions [TransactionRow ''2024-01-01'' (Finite 30),
      TransactionRow ''2024-01-02'' (Finite 100), TransactionRow ''2024-01-05'' (Finite (- 5))]
      (Some (Finite 1000)) ! 1 =
     \<lparr>accountId = ''acct'', entryAmount = Finite 1130, entryDate = ''2024-01-02''\<rparr>"
  using running_balance [of "''acct''" 1 "[TransactionRow ''2024-01-01'' (Finite 30),
      TransactionRow ''2024-01-02'' (Finite 100), TransactionRow ''2024-01-05'' (Finite (- 5))]"
      "Finite 1000"]
  by (simp add: amountOrZero_def dateOrEmpty_def)

text \<open>
  C8. In transactions mode, when the text of the starting balance does not parse to a
  number, no import entry is produced, whatever the deduped rows are.
\<close>

theorem no_starting_balance_no_entries:
  assumes "parseAmount rt startingBalanceInput = None"
  shows "importEntries acct Transactions ds (startingBalance rt Transactions startingBalanceInput) = []"
  using assms by (simp add: importEntries_def startingBalance_def)

theorem no_starting_balance_no_entries_witness:
  "parseAmount exampleRuntime ''n/a'' = None \<and>
   importEntries ''acct'' Transactions
     [TransactionRow ''2024-01-01'' (Finite 30), TransactionRow ''2024-01-02'' (Finite 100)]
     (startingBalance exampleRuntime Transactions ''n/a'') = []"
  using no_starting_balance_no_entries [of exampleRuntime "''n/a''" "''acct''"
    "[TransactionRow ''2024-01-01'' (Finite 30), TransactionRow ''2024-01-02'' (Finite 100)]"]
  by (simp add: amount_defs Let_def)

section \<open>Properties of the date normalizer\<close>

lemma div_bounds:
  fixes a k :: int
  assumes "0 < k"
  shows "k * (a div k) \<le> a" and "a < k * (a div k) + k"
proof -
  have "k * (a div k) + a mod k = a" by simp
  moreover have "0 \<le> a mod k" and "a mod k < k" using assms by simp_all
  ultimately show "k * (a div k) \<le> a" and "a < k * (a div k) + k" by linarith+
qed

lemma DayFromYear_bounds:
  shows "146097 * (y - 1970) - 506 \<le> 400 * DayFromYear y"
    and "400 * DayFromYear y \<le> 146097 * (y - 1970) + 589"
proof -
  have a: "4 * ((y - 1969) div 4) \<le> y - 1969" "y - 1969 < 4 * ((y - 1969) div 4) + 4"
    by (rule div_bounds, simp)+
  have b: "100 * ((y - 1901) div 100) \<le> y - 1901" "y - 1901 < 100 * ((y - 1901) div 100) + 100"
    by (rule div_bounds, simp)+
  have c: "400 * ((y - 1601) div 400) \<le> y - 1601" "y - 1601 < 400 * ((y - 1601) div 400) + 400"
    by (rule div_bounds, simp)+
  show "146097 * (y - 1970) - 506 \<le> 400 * DayFromYear y"
    unfolding DayFromYear_def using a b c by (simp add: algebra_simps)
  show "400 * DayFromYear y \<le> 146097 * (y - 1970) + 589"
    unfolding DayFromYear_def using a b c by (simp add: algebra_simps)
qed

lemma YearFromDay_bounds:
  shows "DayFromYear (YearFromDay n) \<le> n" and "n < DayFromYear (YearFromDay n + 1)"
proof -
  define y0 where "y0 = 1970 + (400 * n) div 146097"
  have d: "146097 * ((400 * n) div 146097) \<le> 400 * n"
    "400 * n < 146097 * ((400 * n) div 146097) + 146097"
    by (rule div_bounds, simp)+
  have q: "146097 * (y0 - 1970) \<le> 400 * n" "400 * n < 146097 * (y0 - 1970) + 146097"
    using d unfolding y0_def by simp_all
  have lo: "400 * DayFromYear (y0 - 1) \<le> 146097 * (y0 - 1 - 1970) + 589"
    by (rule DayFromYear_bounds)
  have hi: "146097 * (y0 + 2 - 1970) - 506 \<le> 400 * DayFromYear (y0 + 2)"
    by (rule DayFromYear_bounds)
  have a: "DayFromYear (y0 - 1) \<le> n" using q lo by (simp add: algebra_simps)
  have b: "n < DayFromYear (y0 + 2)" using q hi by (simp add: algebra_simps)
  have c: "y0 + 1 + 1 = y0 + 2" "y0 - 1 + 1 = y0" by simp_all
  show "DayFromYear (YearFromDay n) \<le> n"
    unfolding YearFromDay_def y0_def[symmetric] Let_def using a by simp
  show "n < DayFromYear (YearFromDay n + 1)"
    unfolding YearFromDay_def y0_def[symmetric] Let_def using b c by (simp add: not_less add.commute)
qed

lemma div_succ:
  fixes z m :: int
  assumes "0 < m"
  shows "(z + 1) div m = z div m + (if (z + 1) mod m = 0 then 1 else 0)"
proof (cases "z mod m = m - 1")
  case True
  have "z = m * (z div m) + z mod m" by simp
  then have eq: "z + 1 = m * (z div m + 1) + 0"
    using True by (simp add: algebra_simps)
  have "(z + 1) div m = z div m + 1"
    using eq assms by (intro int_div_pos_eq) simp_all
  moreover have "(z + 1) mod m = 0"
    using eq assms by (intro int_mod_pos_eq) simp_all
  ultimately show ?thesis by simp
next
  case False
  have r: "0 \<le> z mod m" "z mod m < m" using assms by simp_all
  have "z = m * (z div m) + z mod m" by simp
  then have eq: "z + 1 = m * (z div m) + (z mod m + 1)"
    by (simp add: algebra_simps)
  have "(z + 1) div m = z div m"
    using eq assms r False by (intro int_div_pos_eq[where r = "z mod m + 1"]) simp_all
  moreover have "(z + 1) mod m = z mod m + 1"
    using eq assms r False by (intro int_mod_pos_eq[where q = "z div m"]) simp_all
  ultimately show ?thesis using r by simp
qed

lemma mod_shift:
  fixes y :: int
  shows "(y + 1 - 1969) mod 4 = y mod 4" and "(y + 1 - 1901) mod 100 = y mod 100"
    and "(y + 1 - 1601) mod 400 = y mod 400"
proof -
  have "y + 1 - 1969 = y + 4 * (- 492)" by simp
  then show "(y + 1 - 1969) mod 4 = y mod 4" by (simp only: mod_mult_self2)
  have "y + 1 - 1901 = y + 100 * (- 19)" by simp
  then show "(y + 1 - 1901) mod 100 = y mod 100" by (simp only: mod_mult_self2)
  have "y + 1 - 1601 = y + 400 * (- 4)" by simp
  then show "(y + 1 - 1601) mod 400 = y mod 400" by (simp only: mod_mult_self2)
qed

lemma DayFromYear_step: "DayFromYear (y + 1) = DayFromYear y + 365 + InLeapYear y"
proof -
  have a: "(y + 1 - 1969) div 4 = (y - 1969) div 4 + (if y mod 4 = 0 then 1 else 0)"
    using div_succ[of 4 "y - 1969"] mod_shift(1)[of y] by (simp add: algebra_simps)
  have b: "(y + 1 - 1901) div 100 = (y - 1901) div 100 + (if y mod 100 = 0 then 1 else 0)"
    using div_succ[of 100 "y - 1901"] mod_shift(2)[of y] by (simp add: algebra_simps)
  have c: "(y + 1 - 1601) div 400 = (y - 1601) div 400 + (if y mod 400 = 0 then 1 else 0)"
    using div_succ[of 400 "y - 1601"] mod_shift(3)[of y] by (simp add: algebra_simps)
  have d: "y mod 400 = 0 \<Longrightarrow> y mod 100 = 0" "y mod 100 = 0 \<Longrightarrow> y mod 4 = 0"
  proof -
    have "y mod 400 mod 100 = y mod 100" by (rule mod_mod_cancel) simp
    then show "y mod 400 = 0 \<Longrightarrow> y mod 100 = 0" by simp
    have "y mod 100 mod 4 = y mod 4" by (rule mod_mod_cancel) simp
    then show "y mod 100 = 0 \<Longrightarrow> y mod 4 = 0" by simp
  qed
  show ?thesis
    unfolding DayFromYear_def InLeapYear_def a b c using d by auto
qed

lemma InLeapYear_cases: "InLeapYear y = 0 \<or> InLeapYear y = 1"
  by (simp add: InLeapYear_def)

lemma DayWithinYear_range:
  shows "0 \<le> DayWithinYear n" and "DayWithinYear n < 365 + InLeapYear (YearFromDay n)"
  using YearFromDay_bounds[of n] DayFromYear_step[of "YearFromDay n"]
  by (simp_all add: DayWithinYear_def)

lemma MonthFromDay_range: "0 \<le> MonthFromDay n \<and> MonthFromDay n \<le> 11"
  by (simp add: MonthFromDay_def Let_def)

lemma DateFromDay_range:
  "1 \<le> DateFromDay n \<and>
   DateFromDay n \<le> daysInMonth (InLeapYear (YearFromDay n)) (MonthFromDay n + 1)"
  using DayWithinYear_range[of n] InLeapYear_cases[of "YearFromDay n"]
  by (auto simp: DateFromDay_def MonthFromDay_def monthStart_def daysInMonth_def Let_def)

lemma validDate_from_day:
  "validDate (YearFromDay n) (MonthFromDay n + 1) (DateFromDay n)"
  using MonthFromDay_range[of n] DateFromDay_range[of n] by (simp add: validDate_def)


lemma strictEq_Finite: "strictEq (Finite a) x = (x = Finite a)"
  by (cases x) auto

lemma strictEq_NaN: "\<not> strictEq NaN x"
  by simp

lemma toIsoDate_Some:
  assumes "toIsoDate year month day = Some s"
  shows "\<exists>t. DateUTC year (add month (Finite (- 1))) day = Some t \<and>
    year = Finite (real_of_int (YearFromDay (t div msPerDay))) \<and>
    month = Finite (real_of_int (MonthFromDay (t div msPerDay) + 1)) \<and>
    day = Finite (real_of_int (DateFromDay (t div msPerDay))) \<and>
    s = isoDateText (YearFromDay (t div msPerDay)) (MonthFromDay (t div msPerDay) + 1)
          (DateFromDay (t div msPerDay))"
proof (cases "DateUTC year (add month (Finite (- 1))) day")
  case None
  then show ?thesis
    using assms by (simp add: toIsoDate_def getUTCFullYear_def)
next
  case (Some t)
  then show ?thesis
    using assms
    by (simp add: toIsoDate_def getUTCFullYear_def getUTCMonth_def getUTCDate_def
        isoDatePart_def strictEq_Finite split: if_splits)
qed

lemma toIsoDate_valid:
  assumes "toIsoDate year month day = Some s"
  shows "\<exists>y m d. year = Finite (real_of_int y) \<and> month = Finite (real_of_int m) \<and>
    day = Finite (real_of_int d) \<and> validDate y m d \<and> s = isoDateText y m d"
proof -
  obtain t where "year = Finite (real_of_int (YearFromDay (t div msPerDay)))"
    and "month = Finite (real_of_int (MonthFromDay (t div msPerDay) + 1))"
    and "day = Finite (real_of_int (DateFromDay (t div msPerDay)))"
    and "s = isoDateText (YearFromDay (t div msPerDay)) (MonthFromDay (t div msPerDay) + 1)
          (DateFromDay (t div msPerDay))"
    using toIsoDate_Some[OF assms] by blast
  then show ?thesis
    using validDate_from_day[of "t div msPerDay"] by blast
qed

lemma parseDateFromParts_Some:
  assumes "parseDateFromParts rt parts format = Some s"
  shows "\<exists>year month day. toIsoDate year month day = Some s"
  using assms
  by (auto simp: parseDateFromParts_def Let_def split: if_splits)

lemma normalizeDate_Some:
  assumes "normalizeDate rt raw format = Some s"
  shows "\<exists>year month day. toIsoDate year month day = Some s"
  using assms parseDateFromParts_Some
  by (auto simp: normalizeDate_def Let_def split: if_splits option.splits prod.splits list.splits)


lemmas normalize_defs = normalizeDate_def isoMatch_def numericMatch_def matchRuns_def
  isSeparator_def parseDateFromParts_def Number_def lessEq_def isDigit_def digitValue_def
  decimalValue_def trim_def isSpace_def




lemma padded_numeral:
  "padded (numeral k) n = padded (pred_numeral k) (n div 10) @ [''0123456789'' ! (n mod 10)]"
proof -
  have "padded (Suc (pred_numeral k)) n =
      padded (pred_numeral k) (n div 10) @ [''0123456789'' ! (n mod 10)]"
    by (rule padded.simps)
  then show ?thesis by (simp only: numeral_eq_Suc)
qed

lemma truncate_of_int: "truncate (real_of_int k) = k"
  by (simp add: truncate_def)

lemma DateUTC_int:
  "DateUTC (Finite (real_of_int y)) (add (Finite (real_of_int m)) (Finite (- 1)))
     (Finite (real_of_int d)) =
   (if \<bar>MakeDay (if 0 \<le> y \<and> y \<le> 99 then 1900 + y else y) (m - 1) d * msPerDay\<bar>
        > 8640000000000000
    then None
    else Some (MakeDay (if 0 \<le> y \<and> y \<le> 99 then 1900 + y else y) (m - 1) d * msPerDay))"
proof -
  have "add (Finite (real_of_int m)) (Finite (- 1)) = Finite (real_of_int (m - 1))"
    by simp
  then show ?thesis
    by (simp only: DateUTC.simps truncate_of_int Let_def)
qed

lemma toIsoDate_int:
  "toIsoDate (Finite (real_of_int y)) (Finite (real_of_int m)) (Finite (real_of_int d)) =
     (if \<bar>MakeDay (if 0 \<le> y \<and> y \<le> 99 then 1900 + y else y) (m - 1) d * msPerDay\<bar>
          > 8640000000000000
      then None
      else if YearFromDay (MakeDay (if 0 \<le> y \<and> y \<le> 99 then 1900 + y else y) (m - 1) d) = y \<and>
              MonthFromDay (MakeDay (if 0 \<le> y \<and> y \<le> 99 then 1900 + y else y) (m - 1) d) + 1 = m \<and>
              DateFromDay (MakeDay (if 0 \<le> y \<and> y \<le> 99 then 1900 + y else y) (m - 1) d) = d
      then Some (isoDateText y m d)
      else None)"
proof -
  define n where "n = MakeDay (if 0 \<le> y \<and> y \<le> 99 then 1900 + y else y) (m - 1) d"
  define big where "big = (\<bar>n * msPerDay\<bar> > 8640000000000000)"
  have t: "n * msPerDay div msPerDay = n"
    by (simp add: msPerDay_def)
  have utc: "DateUTC (Finite (real_of_int y)) (add (Finite (real_of_int m)) (Finite (- 1)))
      (Finite (real_of_int d)) = (if big then None else Some (n * msPerDay))"
    unfolding DateUTC_int n_def big_def ..
  have m: "(real_of_int m = real_of_int (MonthFromDay n) + 1) = (MonthFromDay n + 1 = m)"
    by (metis of_int_1 of_int_add of_int_eq_iff)
  have "toIsoDate (Finite (real_of_int y)) (Finite (real_of_int m)) (Finite (real_of_int d)) =
     (if big then None
      else if YearFromDay n = y \<and> MonthFromDay n + 1 = m \<and> DateFromDay n = d
      then Some (isoDateText y m d)
      else None)"
  proof (cases big)
    case True
    then show ?thesis
      unfolding toIsoDate_def utc by (simp add: getUTCFullYear_def)
  next
    case False
    then show ?thesis
      unfolding toIsoDate_def utc
      by (auto simp: Let_def getUTCFullYear_def getUTCMonth_def getUTCDate_def
          isoDatePart_def t strictEq_Finite m)
  qed
  then show ?thesis
    unfolding n_def big_def .
qed


lemmas int_eval = MakeDay_def DayFromYear_def InLeapYear_def monthStart_def YearFromDay_def
  MonthFromDay_def DateFromDay_def DayWithinYear_def msPerDay_def isoDateText_def padded_numeral
  Let_def

lemma toIsoDate_leap_day: "toIsoDate (Finite 2024) (Finite 2) (Finite 29) = Some ''2024-02-29''"
  using toIsoDate_int[of 2024 2 29] by (simp add: int_eval)

lemma toIsoDate_common_year: "toIsoDate (Finite 2023) (Finite 2) (Finite 29) = None"
  using toIsoDate_int[of 2023 2 29] by (simp add: int_eval)

lemma toIsoDate_feb_30: "toIsoDate (Finite 2024) (Finite 2) (Finite 30) = None"
  using toIsoDate_int[of 2024 2 30] by (simp add: int_eval)

lemma toIsoDate_month_30: "toIsoDate (Finite 2024) (Finite 30) (Finite 2) = None"
  using toIsoDate_int[of 2024 30 2] by (simp add: int_eval)

lemma toIsoDate_may_13: "toIsoDate (Finite 2024) (Finite 5) (Finite 13) = Some ''2024-05-13''"
  using toIsoDate_int[of 2024 5 13] by (simp add: int_eval)


lemma normalizeDate_leap_day: "normalizeDate rt ''2024-02-29'' format = Some ''2024-02-29''"
  by (simp add: normalize_defs toIsoDate_leap_day Let_def)

lemma normalizeDate_common_year: "normalizeDate rt ''2023-02-29'' format = None"
  by (simp add: normalize_defs toIsoDate_common_year Let_def)

lemma normalizeDate_feb_30: "normalizeDate rt ''02/30/2024'' format = None"
  by (cases format) (simp_all add: normalize_defs toIsoDate_feb_30 toIsoDate_month_30 Let_def)

lemma normalizeDate_13_05: "normalizeDate rt ''13/05/2024'' Auto = Some ''2024-05-13''"
  by (simp add: normalize_defs toIsoDate_may_13 Let_def)

lemma normalizeDate_05_13: "normalizeDate rt ''05/13/2024'' Auto = Some ''2024-05-13''"
  by (simp add: normalize_defs toIsoDate_may_13 Let_def)

lemma separator_no_digit: "isSeparator c \<Longrightarrow> \<not> isDigit c"
  by (auto simp: isSeparator_def isDigit_def)

lemma digit_no_space: "isDigit c \<Longrightarrow> \<not> isSpace c"
  by (auto simp: isDigit_def isSpace_def)

lemma trim_id:
  assumes "s \<noteq> []" and "\<not> isSpace (hd s)" and "\<not> isSpace (last s)"
  shows "trim s = s"
proof -
  have "dropWhile isSpace s = s"
    using assms(1,2) by (cases s) simp_all
  moreover have "dropWhile isSpace (rev s) = rev s"
    using assms(1,3) by (cases "rev s") (simp_all add: last_rev[symmetric] hd_rev)
  ultimately show ?thesis by (simp add: trim_def)
qed

lemma trim_digits:
  assumes "\<forall>c \<in> set s. isDigit c"
  shows "trim s = s"
proof (cases "s = []")
  case True
  then show ?thesis by (simp add: trim_def)
next
  case False
  then have "hd s \<in> set s" and "last s \<in> set s" by simp_all
  then have "\<not> isSpace (hd s)" and "\<not> isSpace (last s)"
    using assms digit_no_space by blast+
  with False show ?thesis by (rule trim_id)
qed

lemma matchRuns_digits:
  assumes a: "\<forall>c \<in> set a. isDigit c" and b: "\<forall>c \<in> set b. isDigit c"
    and y: "\<forall>c \<in> set y. isDigit c" and s: "isSeparator s1" "isSeparator s2"
  shows "matchRuns ok1 ok2 ok3 (a @ s1 # b @ s2 # y) =
    (if ok1 (length a) \<and> ok2 (length b) \<and> ok3 (length y) then Some (a, b, y) else None)"
proof -
  have "takeWhile isDigit (a @ s1 # b @ s2 # y) = a"
    and "dropWhile isDigit (a @ s1 # b @ s2 # y) = s1 # b @ s2 # y"
    using takeWhile_digits[OF a, of "s1 # b @ s2 # y"] separator_no_digit[OF s(1)] by simp_all
  moreover have "takeWhile isDigit (b @ s2 # y) = b"
    and "dropWhile isDigit (b @ s2 # y) = s2 # y"
    using takeWhile_digits[OF b, of "s2 # y"] separator_no_digit[OF s(2)] by simp_all
  moreover have "list_all isDigit y"
    using y by (simp add: list_all_iff)
  ultimately show ?thesis
    using s by (simp add: matchRuns_def Let_def)
qed

lemma Number_digits:
  assumes "s \<noteq> []" and "length s \<le> 15" and "\<forall>c \<in> set s. isDigit c"
  shows "Number rt s = Finite (real (decimalValue s))"
  using assms by (simp add: Number_def list_all_iff)

lemma compare_Finite:
  "greater (Finite a) (Finite b) = (a > b)" "lessEq (Finite a) (Finite b) = (a \<le> b)"
  by (auto simp: lessEq_def)

lemma parts_under_auto:
  assumes "trim a \<noteq> []" and "trim b \<noteq> []" and "length (trim a) \<noteq> 4" and "length (trim y) = 4"
  shows "parseDateFromParts rt [a, b, y] Auto =
    (if greater (Number rt (trim a)) (Finite 12) \<and> lessEq (Number rt (trim b)) (Finite 12)
     then toIsoDate (Number rt (trim y)) (Number rt (trim b)) (Number rt (trim a))
     else toIsoDate (Number rt (trim y)) (Number rt (trim a)) (Number rt (trim b)))"
proof -
  have "trim y \<noteq> []" using assms(4) by auto
  then show ?thesis
    using assms by (simp add: parseDateFromParts_def Let_def)
qed

lemma numeric_under_auto:
  assumes a: "a \<noteq> []" "length a \<le> 2" "\<forall>c \<in> set a. isDigit c"
    and b: "b \<noteq> []" "length b \<le> 2" "\<forall>c \<in> set b. isDigit c"
    and y: "length y = 4" "\<forall>c \<in> set y. isDigit c"
    and s: "isSeparator s1" "isSeparator s2"
  shows "normalizeDate rt (a @ s1 # b @ s2 # y) Auto =
    (if decimalValue a > 12 \<and> decimalValue b \<le> 12
     then toIsoDate (Finite (real (decimalValue y))) (Finite (real (decimalValue b)))
            (Finite (real (decimalValue a)))
     else toIsoDate (Finite (real (decimalValue y))) (Finite (real (decimalValue a)))
            (Finite (real (decimalValue b))))"
proof -
  let ?s = "a @ s1 # b @ s2 # y"
  have ynz: "y \<noteq> []" using y(1) by auto
  have "hd ?s \<in> set a" using a(1) by (cases a) simp_all
  then have "\<not> isSpace (hd ?s)" using a(3) digit_no_space by blast
  moreover have "last ?s \<in> set y" using ynz by simp
  then have "\<not> isSpace (last ?s)" using y(2) digit_no_space by blast
  ultimately have tr: "trim ?s = ?s" by (intro trim_id) simp_all
  have iso: "isoMatch ?s = None"
    unfolding isoMatch_def matchRuns_digits[OF a(3) b(3) y(2) s] using a(2) by simp
  have num: "numericMatch ?s = Some (a, b, y)"
    unfolding numericMatch_def matchRuns_digits[OF a(3) b(3) y(2) s]
    using a(1,2) b(1,2) y(1) by (simp add: Suc_le_eq)
  have ta: "trim a = a" and tb: "trim b = b" and ty: "trim y = y"
    using a(3) b(3) y(2) by (simp_all add: trim_digits)
  have na: "Number rt a = Finite (real (decimalValue a))"
    using a by (intro Number_digits) simp_all
  have nb: "Number rt b = Finite (real (decimalValue b))"
    using b by (intro Number_digits) simp_all
  have ny: "Number rt y = Finite (real (decimalValue y))"
    using y ynz by (intro Number_digits) simp_all
  have "parseDateFromParts rt [a, b, y] Auto =
    (if greater (Number rt (trim a)) (Finite 12) \<and> lessEq (Number rt (trim b)) (Finite 12)
     then toIsoDate (Number rt (trim y)) (Number rt (trim b)) (Number rt (trim a))
     else toIsoDate (Number rt (trim y)) (Number rt (trim a)) (Number rt (trim b)))"
    using a(1,2) b(1) y(1) by (intro parts_under_auto) (simp_all add: ta tb ty)
  then have "parseDateFromParts rt [a, b, y] Auto =
    (if decimalValue a > 12 \<and> decimalValue b \<le> 12
     then toIsoDate (Finite (real (decimalValue y))) (Finite (real (decimalValue b)))
            (Finite (real (decimalValue a)))
     else toIsoDate (Finite (real (decimalValue y))) (Finite (real (decimalValue a)))
            (Finite (real (decimalValue b))))"
    by (simp add: ta tb ty na nb ny compare_Finite)
  then show ?thesis
    using a(1) by (simp add: normalizeDate_def tr iso num Let_def)
qed

lemma toIsoDate_march_1: "toIsoDate (Finite 2024) (Finite 3) (Finite 1) = Some ''2024-03-01''"
  using toIsoDate_int[of 2024 3 1] by (simp add: int_eval)

lemma dot_parts: "split (CHR ''.'') ''02.30.2024'' = [''02'', ''30'', ''2024'']"
  by simp

lemma dot_parts_rejected: "parseDateFromParts rt [''02'', ''30'', ''2024''] format = None"
proof -
  have n: "Number rt ''02'' = Finite 2" "Number rt ''30'' = Finite 30"
    "Number rt ''2024'' = Finite 2024"
    by (simp_all add: Number_def isDigit_def decimalValue_def digitValue_def)
  have t: "trim ''02'' = ''02''" "trim ''30'' = ''30''" "trim ''2024'' = ''2024''"
    by (simp_all add: trim_def isSpace_def)
  show ?thesis
    by (cases format)
      (simp_all add: parseDateFromParts_def Let_def n t toIsoDate_feb_30 toIsoDate_month_30)
qed

text \<open>
  The guard of \<open>toIsoDate\<close>: a year, month and day are accepted only if the date built from
  them gives back the same year, month and day; an accepted triple is therefore a date of
  the calendar.  Under every policy \<open>02/30/2024\<close> is rejected, \<open>2024-02-29\<close> is accepted and
  \<open>2023-02-29\<close> is rejected.
\<close>

lemma toIsoDate_guard:
  "(toIsoDate year month day = Some s \<longrightarrow>
      (\<exists>t. DateUTC year (add month (Finite (- 1))) day = Some t \<and>
           year = Finite (real_of_int (YearFromDay (t div msPerDay))) \<and>
           month = Finite (real_of_int (MonthFromDay (t div msPerDay) + 1)) \<and>
           day = Finite (real_of_int (DateFromDay (t div msPerDay)))) \<and>
      (\<exists>y m d. year = Finite (real_of_int y) \<and> month = Finite (real_of_int m) \<and>
           day = Finite (real_of_int d) \<and> validDate y m d \<and> s = isoDateText y m d)) \<and>
   normalizeDate rt ''02/30/2024'' format = None \<and>
   normalizeDate rt ''2024-02-29'' format = Some ''2024-02-29'' \<and>
   normalizeDate rt ''2023-02-29'' format = None"
proof -
  have a: "toIsoDate year month day = Some s \<longrightarrow>
      (\<exists>t. DateUTC year (add month (Finite (- 1))) day = Some t \<and>
           year = Finite (real_of_int (YearFromDay (t div msPerDay))) \<and>
           month = Finite (real_of_int (MonthFromDay (t div msPerDay) + 1)) \<and>
           day = Finite (real_of_int (DateFromDay (t div msPerDay)))) \<and>
      (\<exists>y m d. year = Finite (real_of_int y) \<and> month = Finite (real_of_int m) \<and>
           day = Finite (real_of_int d) \<and> validDate y m d \<and> s = isoDateText y m d)"
    using toIsoDate_Some[of year month day s] toIsoDate_valid[of year month day s] by blast
  show ?thesis
    by (intro conjI a normalizeDate_feb_30 normalizeDate_leap_day normalizeDate_common_year)
qed

text \<open>
  C3, against the code.  The date cell \<open>02.30.2024\<close> matches neither pattern; split at the
  dots, its parts are rejected by \<open>toIsoDate\<close> under every policy, as 30 February is no date
  and there is no month 30.  \<open>normalizeDate\<close> then goes on to \<open>new Date(text)\<close>.  Where the
  runtime reads this text as month, day and year and lets the day run over, as V8 does, the
  parsed date is 1 March 2024, which \<open>toIsoDate\<close> gives back unchanged: the cell is accepted
  as 2024-03-01 under every policy, a date that is not in the text, while the same date
  written \<open>02/30/2024\<close> is rejected.
\<close>

theorem dot_date_rolls_over:
  assumes "parseDateText rt ''02.30.2024'' = Some (2024, 2, 1)"
  shows "isoMatch ''02.30.2024'' = None \<and> numericMatch ''02.30.2024'' = None \<and>
    parseDateFromParts rt (split (CHR ''.'') ''02.30.2024'') format = None \<and>
    normalizeDate rt ''02.30.2024'' format = Some ''2024-03-01'' \<and>
    normalizeDate rt ''02/30/2024'' format = None"
proof -
  have m: "isoMatch ''02.30.2024'' = None" "numericMatch ''02.30.2024'' = None"
    by (simp_all add: isoMatch_def numericMatch_def matchRuns_def isDigit_def isSeparator_def)
  have p: "parseDateFromParts rt (split (CHR ''.'') ''02.30.2024'') format = None"
    by (simp only: dot_parts dot_parts_rejected)
  have t: "trim ''02.30.2024'' = ''02.30.2024''"
    by (simp add: trim_def isSpace_def)
  have "normalizeDate rt ''02.30.2024'' format =
      toIsoDate (Finite (real_of_int 2024)) (Finite (real_of_int (2 + 1))) (Finite (real_of_int 1))"
    unfolding normalizeDate_def t Let_def m p using assms by simp
  then have n: "normalizeDate rt ''02.30.2024'' format = Some ''2024-03-01''"
    by (simp add: toIsoDate_march_1)
  show ?thesis
    by (intro conjI m p n normalizeDate_feb_30)
qed

theorem dot_date_rolls_over_witness:
  "parseDateText exampleRuntime ''02.30.2024'' = Some (2024, 2, 1) \<and>
   normalizeDate exampleRuntime ''02.30.2024'' Mdy = Some ''2024-03-01'' \<and>
   normalizeDate exampleRuntime ''02.30.2024'' Dmy = Some ''2024-03-01'' \<and>
   normalizeDate exampleRuntime ''02.30.2024'' Ymd = Some ''2024-03-01'' \<and>
   normalizeDate exampleRuntime ''02.30.2024'' Auto = Some ''2024-03-01'' \<and>
   normalizeDate exampleRuntime ''02/30/2024'' Mdy = None"
proof -
  have h: "parseDateText exampleRuntime ''02.30.2024'' = Some (2024, 2, 1)"
    by (simp add: exampleRuntime_def)
  note T = dot_date_rolls_over [OF h]
  show ?thesis
    by (intro conjI h T[THEN conjunct2, THEN conjunct2, THEN conjunct2, THEN conjunct1]
        T[THEN conjunct2, THEN conjunct2, THEN conjunct2, THEN conjunct2])
qed

text \<open>
  C4. Under the auto policy a numeric date \<open>A/B/YYYY\<close>, with one or two digits for \<open>A\<close> and
  for \<open>B\<close>, is read as day-month-year when \<open>A\<close> exceeds 12 and \<open>B\<close> does not, and as
  month-day-year otherwise.  The same rule decides three trimmed parts of which the first
  has not four characters and the last has four.  \<open>13/05/2024\<close> takes the first branch and
  \<open>05/13/2024\<close> the second; both give 2024-05-13.
\<close>

theorem auto_policy:
  assumes "a \<noteq> []" and "length a \<le> 2" and "\<forall>c \<in> set a. isDigit c"
    and "b \<noteq> []" and "length b \<le> 2" and "\<forall>c \<in> set b. isDigit c"
    and "length y = 4" and "\<forall>c \<in> set y. isDigit c"
    and "isSeparator s1" and "isSeparator s2"
  shows "normalizeDate rt (a @ s1 # b @ s2 # y) Auto =
      (if decimalValue a > 12 \<and> decimalValue b \<le> 12
       then toIsoDate (Finite (real (decimalValue y))) (Finite (real (decimalValue b)))
              (Finite (real (decimalValue a)))
       else toIsoDate (Finite (real (decimalValue y))) (Finite (real (decimalValue a)))
              (Finite (real (decimalValue b)))) \<and>
    (trim p1 \<noteq> [] \<longrightarrow> trim p2 \<noteq> [] \<longrightarrow> length (trim p1) \<noteq> 4 \<longrightarrow> length (trim p3) = 4 \<longrightarrow>
       parseDateFromParts rt [p1, p2, p3] Auto =
         (if greater (Number rt (trim p1)) (Finite 12) \<and> lessEq (Number rt (trim p2)) (Finite 12)
          then toIsoDate (Number rt (trim p3)) (Number rt (trim p2)) (Number rt (trim p1))
          else toIsoDate (Number rt (trim p3)) (Number rt (trim p1)) (Number rt (trim p2)))) \<and>
    decimalValue ''13'' > 12 \<and> decimalValue ''05'' \<le> 12 \<and>
    normalizeDate rt ''13/05/2024'' Auto = Some ''2024-05-13'' \<and>
    \<not> decimalValue ''05'' > 12 \<and>
    normalizeDate rt ''05/13/2024'' Auto = Some ''2024-05-13''"
proof -
  have v: "decimalValue ''13'' > 12" "decimalValue ''05'' \<le> 12" "\<not> decimalValue ''05'' > 12"
    by (simp_all add: decimalValue_def digitValue_def)
  have p: "trim p1 \<noteq> [] \<longrightarrow> trim p2 \<noteq> [] \<longrightarrow> length (trim p1) \<noteq> 4 \<longrightarrow> length (trim p3) = 4 \<longrightarrow>
       parseDateFromParts rt [p1, p2, p3] Auto =
         (if greater (Number rt (trim p1)) (Finite 12) \<and> lessEq (Number rt (trim p2)) (Finite 12)
          then toIsoDate (Number rt (trim p3)) (Number rt (trim p2)) (Number rt (trim p1))
          else toIsoDate (Number rt (trim p3)) (Number rt (trim p1)) (Number rt (trim p2)))"
    by (intro impI parts_under_auto)
  show ?thesis
    by (intro conjI numeric_under_auto[OF assms] p v normalizeDate_13_05 normalizeDate_05_13)
qed

theorem auto_policy_witness:
  "''31'' \<noteq> [] \<and> length ''31'' \<le> 2 \<and> list_all isDigit ''31'' \<and>
   ''1'' \<noteq> [] \<and> length ''1'' \<le> 2 \<and> list_all isDigit ''1'' \<and>
   length ''1999'' = 4 \<and> list_all isDigit ''1999'' \<and>
   isSeparator CHR ''-'' \<and> isSeparator CHR ''/'' \<and>
   normalizeDate exampleRuntime ''31-1/1999'' Auto =
     toIsoDate (Finite 1999) (Finite 1) (Finite 31) \<and>
   toIsoDate (Finite 1999) (Finite 1) (Finite 31) = Some ''1999-01-31''"
proof -
  let ?rt = exampleRuntime
  have a: "''31'' \<noteq> []" "length ''31'' \<le> 2" "\<forall>c \<in> set ''31''. isDigit c"
    by (simp_all add: isDigit_def)
  have b: "''1'' \<noteq> []" "length ''1'' \<le> 2" "\<forall>c \<in> set ''1''. isDigit c"
    by (simp_all add: isDigit_def)
  have y: "length ''1999'' = 4" "\<forall>c \<in> set ''1999''. isDigit c"
    by (simp_all add: isDigit_def)
  have s: "isSeparator CHR ''-''" "isSeparator CHR ''/''"
    by (simp_all add: isSeparator_def)
  have v: "decimalValue ''31'' = 31" "decimalValue ''1'' = 1" "decimalValue ''1999'' = 1999"
    by (simp_all add: decimalValue_def digitValue_def)
  have "normalizeDate ?rt (''31'' @ CHR ''-'' # ''1'' @ CHR ''/'' # ''1999'') Auto =
      (if decimalValue ''31'' > 12 \<and> decimalValue ''1'' \<le> 12
       then toIsoDate (Finite (real (decimalValue ''1999''))) (Finite (real (decimalValue ''1'')))
              (Finite (real (decimalValue ''31'')))
       else toIsoDate (Finite (real (decimalValue ''1999''))) (Finite (real (decimalValue ''31'')))
              (Finite (real (decimalValue ''1''))))"
    using auto_policy [OF a b y s, of ?rt "''31''" "''1''" "''1999''"] by (rule conjunct1)
  then have n: "normalizeDate ?rt ''31-1/1999'' Auto =
      toIsoDate (Finite 1999) (Finite 1) (Finite 31)"
    by (simp add: v)
  have t: "toIsoDate (Finite 1999) (Finite 1) (Finite 31) = Some ''1999-01-31''"
    using toIsoDate_int[of 1999 1 31] by (simp add: int_eval)
  show ?thesis
    using a b y s n t by (simp add: list_all_iff)
qed

section \<open>The order of the deduplicated dates\<close>

lemma toIsoDate_year_100000:
  "toIsoDate (Finite 100000) (Finite 1) (Finite 1) = Some ''+100000-01-01''"
  using toIsoDate_int[of 100000 1 1] by (simp add: int_eval)

lemma toIsoDate_year_minus_1000:
  "toIsoDate (Finite (- 1000)) (Finite 1) (Finite 1) = Some ''-001000-01-01''"
  using toIsoDate_int[of "- 1000" 1 1] by (simp add: int_eval)

lemma isoShaped_unsigned: "isoShaped d \<Longrightarrow> unsignedDate d"
  by (induction d rule: isoShaped.induct) (simp_all add: unsignedDate_def)

lemma digit_char: "n < 10 \<Longrightarrow> isDigit (''0123456789'' ! n)"
proof -
  assume "n < 10"
  then have "n \<in> {0, 1, 2, 3, 4, 5, 6, 7, 8, 9}" by auto
  then show ?thesis by (auto simp: isDigit_def)
qed

lemma padded_2: "\<exists>a b. padded 2 n = [a, b] \<and> isDigit a \<and> isDigit b"
  by (simp add: padded_numeral digit_char)

lemma padded_4:
  "\<exists>a b c d. padded 4 n = [a, b, c, d] \<and> isDigit a \<and> isDigit b \<and> isDigit c \<and> isDigit d"
  by (simp add: padded_numeral digit_char)

lemma isoDateText_shaped:
  assumes "0 \<le> y" and "y \<le> 9999"
  shows "isoShaped (isoDateText y m d)"
proof -
  obtain a b c e where y: "padded 4 (nat y) = [a, b, c, e]"
    "isDigit a" "isDigit b" "isDigit c" "isDigit e"
    using padded_4 by blast
  obtain m1 m2 where m: "padded 2 (nat m) = [m1, m2]" "isDigit m1" "isDigit m2"
    using padded_2 by blast
  obtain d1 d2 where d: "padded 2 (nat d) = [d1, d2]" "isDigit d1" "isDigit d2"
    using padded_2 by blast
  show ?thesis
    using assms y m d by (simp add: isoDateText_def)
qed

text \<open>For the years 0 to 9999 the dates \<open>toIsoDate\<close> returns have the form \<open>YYYY-MM-DD\<close>.\<close>

lemma toIsoDate_shaped:
  assumes "toIsoDate (Finite y) m d = Some s" and "0 \<le> y" and "y \<le> 9999"
  shows "isoShaped s"
proof -
  obtain yy mm dd where "Finite y = Finite (real_of_int yy)" and s: "s = isoDateText yy mm dd"
    using toIsoDate_valid[OF assms(1)] by blast
  then have "0 \<le> yy" and "yy \<le> 9999"
    using assms(2,3) by simp_all
  then show ?thesis
    unfolding s by (rule isoDateText_shaped)
qed

text \<open>
  C9, against the claim.  \<open>toIsoDate\<close> returns \<open>+100000-01-01\<close> for the year 100000 and
  \<open>-001000-01-01\<close> for the year -1000.  For two valid rows with these dates the
  deduplicator returns the date with the hyphen first, as the collation has it; in the
  lexicographic order of the strings the date with the plus sign is the smaller, so the
  dates of the output are not increasing.
\<close>

theorem signed_dates_not_increasing:
  "toIsoDate (Finite 100000) (Finite 1) (Finite 1) = Some ''+100000-01-01'' \<and>
   toIsoDate (Finite (- 1000)) (Finite 1) (Finite 1) = Some ''-001000-01-01'' \<and>
   map dateOrEmpty (fst (dedupedRows exampleRuntime Balance (validRows
     [rowWith 2 ''+100000-01-01'' 1, rowWith 3 ''-001000-01-01'' 2]))) =
     [''-001000-01-01'', ''+100000-01-01''] \<and>
   map dateOrEmpty (fst (dedupedRows exampleRuntime Transactions (validRows
     [rowWith 2 ''+100000-01-01'' 1, rowWith 3 ''-001000-01-01'' 2]))) =
     [''-001000-01-01'', ''+100000-01-01''] \<and>
   ''+100000-01-01'' < ''-001000-01-01'' \<and>
   \<not> sorted_wrt (<) [''-001000-01-01'', ''+100000-01-01'']"
proof -
  have rows: "validRows [rowWith 2 ''+100000-01-01'' 1, rowWith 3 ''-001000-01-01'' 2] =
      [rowWith 2 ''+100000-01-01'' 1, rowWith 3 ''-001000-01-01'' 2]"
    by (simp add: validRows_def isValid_rowWith)
  have cmp: "localeCompare exampleRuntime ''+100000-01-01'' ''-001000-01-01'' = 1"
    by (simp add: localeCompare_def isDateChar_def collationWeight_def isDigit_def)
  have b: "map dateOrEmpty (fst (dedupedRows exampleRuntime Balance
      [rowWith 2 ''+100000-01-01'' 1, rowWith 3 ''-001000-01-01'' 2])) =
      [''-001000-01-01'', ''+100000-01-01'']"
    by (simp add: dedupedRows_def balanceStep_def mapSet_def mapHas_def mapValues_def sortBy_def
        compareRows_def cmp rowWith_def dateOrEmpty_def)
  have t: "map dateOrEmpty (fst (dedupedRows exampleRuntime Transactions
      [rowWith 2 ''+100000-01-01'' 1, rowWith 3 ''-001000-01-01'' 2])) =
      [''-001000-01-01'', ''+100000-01-01'']"
    by (simp add: dedupedRows_def transactionStep_def mapSet_def mapHas_def mapGet_def
        mapValues_def sortBy_def cmp rowWith_def dateOrEmpty_def)
  have lt: "''+100000-01-01'' < ''-001000-01-01''"
    by (simp add: less_char_def)
  then have ns: "\<not> sorted_wrt (<) [''-001000-01-01'', ''+100000-01-01'']"
    by (simp del: Cons_less_Cons add: less_asym)
  show ?thesis
    unfolding rows
    by (intro conjI toIsoDate_year_100000 toIsoDate_year_minus_1000 b t lt ns)
qed

text \<open>
  C9, amended.  In both modes and for every list of normalized rows, the dates of the
  deduplicator's output are the dates of the valid rows, each once.  When the dates of the
  valid rows have the form \<open>YYYY-MM-DD\<close>, which \<open>toIsoDate\<close> gives them for the years 0 to
  9999, the dates of the output are strictly increasing in the lexicographic order of the
  strings.
\<close>

theorem dedupe_dates_increasing:
  "distinct (map dateOrEmpty (fst (dedupedRows rt st (validRows rs)))) \<and>
   set (map dateOrEmpty (fst (dedupedRows rt st (validRows rs)))) = set (map dateOf (validRows rs)) \<and>
   ((\<forall>r \<in> set (validRows rs). isoShaped (dateOf r)) \<longrightarrow>
      sorted_wrt (<) (map dateOrEmpty (fst (dedupedRows rt st (validRows rs)))))"
proof -
  let ?out = "map dateOrEmpty (fst (dedupedRows rt st (validRows rs)))"
  have valid: "\<forall>r \<in> set (validRows rs). isValid r"
    by (simp add: validRows_def)
  then have m: "mset ?out = mset (datesOf (validRows rs))"
    by (rule dedupedRows_dates_mset)
  have "distinct (datesOf (validRows rs))"
    by (simp add: datesOf_def)
  then have d: "distinct ?out"
    using m mset_eq_imp_distinct_iff by blast
  have "set ?out = set (datesOf (validRows rs))"
    using m by (rule mset_eq_setD)
  then have s: "set ?out = set (map dateOf (validRows rs))"
    by (simp add: datesOf_def del: set_map)
  have o: "(\<forall>r \<in> set (validRows rs). isoShaped (dateOf r)) \<longrightarrow> sorted_wrt (<) ?out"
  proof
    assume "\<forall>r \<in> set (validRows rs). isoShaped (dateOf r)"
    then have "\<forall>r \<in> set (validRows rs). unsignedDate (dateOf r)"
      using isoShaped_unsigned by blast
    with valid have "?out = datesOf (validRows rs)"
      by (rule dedupedRows_dates)
    then show "sorted_wrt (<) ?out"
      by (simp add: datesOf_def strict_sorted_iff del: set_map)
  qed
  show ?thesis
    by (intro conjI d s o)
qed

theorem dedupe_dates_increasing_witness:
  "list_all (\<lambda>r. isoShaped (dateOf r)) (validRows [rowWith 2 ''2024-01-06'' 100,
      rowWith 3 [] 7, rowWith 4 ''2024-01-05'' 50, rowWith 5 ''2024-01-06'' 1]) \<and>
   map dateOrEmpty (fst (dedupedRows exampleRuntime Balance (validRows
     [rowWith 2 ''2024-01-06'' 100, rowWith 3 [] 7, rowWith 4 ''2024-01-05'' 50,
      rowWith 5 ''2024-01-06'' 1]))) = [''2024-01-05'', ''2024-01-06''] \<and>
   map dateOrEmpty (fst (dedupedRows exampleRuntime Transactions (validRows
     [rowWith 2 ''2024-01-06'' 100, rowWith 3 [] 7, rowWith 4 ''2024-01-05'' 50,
      rowWith 5 ''2024-01-06'' 1]))) = [''2024-01-05'', ''2024-01-06''] \<and>
   sorted_wrt (<) [''2024-01-05'', ''2024-01-06'']"
proof -
  let ?rs = "[rowWith 2 ''2024-01-06'' 100, rowWith 3 [] 7, rowWith 4 ''2024-01-05'' 50,
      rowWith 5 ''2024-01-06'' 1]"
  have rows: "validRows ?rs = [rowWith 2 ''2024-01-06'' 100, rowWith 4 ''2024-01-05'' 50,
      rowWith 5 ''2024-01-06'' 1]"
    by (simp add: validRows_def isValid_rowWith)
  have h: "\<forall>r \<in> set (validRows ?rs). isoShaped (dateOf r)"
    unfolding rows by (simp add: dateOf_def rowWith_def isDigit_def)
  have b: "map dateOrEmpty (fst (dedupedRows exampleRuntime Balance (validRows ?rs))) =
      [''2024-01-05'', ''2024-01-06'']"
    unfolding rows by (simp add: dedupe_defs rowWith_def dateOrEmpty_def)
  have t: "map dateOrEmpty (fst (dedupedRows exampleRuntime Transactions (validRows ?rs))) =
      [''2024-01-05'', ''2024-01-06'']"
    unfolding rows by (simp add: dedupe_defs rowWith_def dateOrEmpty_def)
  have "sorted_wrt (<) (map dateOrEmpty (fst (dedupedRows exampleRuntime Balance (validRows ?rs))))"
    using dedupe_dates_increasing [of exampleRuntime Balance ?rs,
        THEN conjunct2, THEN conjunct2] h by (rule mp)
  then have s: "sorted_wrt (<) [''2024-01-05'', ''2024-01-06'']"
    by (simp only: b)
  have "list_all (\<lambda>r. isoShaped (dateOf r)) (validRows ?rs)"
    using h by (simp only: list_all_iff)
  then show ?thesis
    by (intro conjI b t s)
qed

end
